theory Spec2Isabelle
  imports Main "HOL-Library.Word"
begin

unbundle bit_operations_syntax

section \<open>Machine types\<close>

text \<open>
  Go's \<open>byte\<close>, \<open>int64\<close> and \<open>uint64\<close>. An \<open>int64\<close> is read with \<open>sint\<close>, and the
  conversion \<open>uint64(x)\<close> of an \<open>int64\<close> keeps the 64 bits as they are. Go's \<open>int\<close>
  (64 bits on the platforms the program runs on) only ever holds offsets and values
  below \<open>2 ^ 32\<close> in the code modelled here, so it is a \<open>nat\<close> or an \<open>int\<close>.
\<close>

type_synonym byte = "8 word"
type_synonym int64 = "64 word"
type_synonym uint64 = "64 word"

text \<open>
  What a Go call does: it returns, or it panics (a nil dereference, an index out of
  range, an integer division by zero).
\<close>

datatype 'a outcome = Panic | Returns 'a

section \<open>Values: package object\<close>

text \<open>
  \<open>object.Integer\<close> wraps an \<open>int64\<close>; \<open>object.String\<close> holds the string and the
  iteration offset. A Go string is a sequence of bytes, as an Isabelle \<open>string\<close> is.
  \<open>Null\<close> is the value \<open>Execute\<close> hands back beside an error. The other kinds of value
  of the package are not under src/: they are the constructor \<open>Other\<close>, and their
  truthiness is a parameter.
\<close>

datatype 'o Object =
    Integer int64
  | String string int
  | Null
  | Other 'o

text \<open>
  \<open>Integer.True\<close> is \<open>i.Value > 0\<close> on the signed value and \<open>String.True\<close> is
  \<open>s.Value != ""\<close>.
  Modelled from the spec: \<open>Null.True\<close> is not under src/; the spec has null falsy.
\<close>

fun True_obj :: "('o \<Rightarrow> bool) \<Rightarrow> 'o Object \<Rightarrow> bool" where
  "True_obj other_True (Integer v) = (0 <s v)"
| "True_obj other_True (String v off) = (v \<noteq> [])"
| "True_obj other_True Null = False"
| "True_obj other_True (Other x) = other_True x"

subsection \<open>Hash keys\<close>

text \<open>
  Modelled from the spec: the type tags \<open>INTEGER\<close> and \<open>STRING\<close> of package object are
  constants declared outside src/; they are two different tags.
\<close>

datatype Type = INTEGER | STRING

datatype HashKey = HashKey Type uint64

fun Integer_Type :: "int64 \<Rightarrow> Type" where
  "Integer_Type v = INTEGER"

fun String_Type :: "string \<Rightarrow> Type" where
  "String_Type v = STRING"

definition Integer_HashKey :: "int64 \<Rightarrow> HashKey" where
  "Integer_HashKey v = HashKey (Integer_Type v) v"

text \<open>
  \<open>hash/fnv\<close>'s \<open>New64a\<close>, \<open>Write\<close> and \<open>Sum64\<close> (Go's standard library): the state
  starts at the offset basis; each byte is xor-ed into the state, which is then
  multiplied by the prime, modulo \<open>2 ^ 64\<close>.
\<close>

definition offset64 :: uint64 where
  "offset64 = 14695981039346656037"

definition prime64 :: uint64 where
  "prime64 = 1099511628211"

fun fnv64a_Write :: "uint64 \<Rightarrow> string \<Rightarrow> uint64" where
  "fnv64a_Write h [] = h"
| "fnv64a_Write h (c # cs) = fnv64a_Write ((h XOR of_char c) * prime64) cs"

definition String_HashKey :: "string \<Rightarrow> HashKey" where
  "String_HashKey v = HashKey (String_Type v) (fnv64a_Write offset64 v)"

text \<open>
  The dynamic probe for \<open>Hashable\<close>: of the values under src/, integers and strings
  have a hash key.
\<close>

fun hash_key :: "'o Object \<Rightarrow> HashKey option" where
  "hash_key (Integer v) = Some (Integer_HashKey v)"
| "hash_key (String v off) = Some (String_HashKey v)"
| "hash_key Null = None"
| "hash_key (Other x) = None"

section \<open>The stack of the virtual machine: package stack\<close>

record 'o Stack =
  entries :: "'o Object list"

definition New :: "'o Stack" where
  "New = \<lparr>entries = []\<rparr>"

definition Clear :: "'o Stack \<Rightarrow> 'o Stack" where
  "Clear s = s\<lparr>entries := []\<rparr>"

definition Empty :: "'o Stack \<Rightarrow> bool" where
  "Empty s = (length (entries s) = 0)"

definition Size :: "'o Stack \<Rightarrow> nat" where
  "Size s = length (entries s)"

definition Push :: "'o Object \<Rightarrow> 'o Stack \<Rightarrow> 'o Stack" where
  "Push v s = s\<lparr>entries := entries s @ [v]\<rparr>"

text \<open>
  \<open>Pop\<close> returns the object or the error, and the stack it leaves. The indexing
  \<open>s.entries[len(s.entries)-1]\<close> is reached on a non-empty stack only.
\<close>

definition Pop :: "'o Stack \<Rightarrow> (string + 'o Object) \<times> 'o Stack" where
  "Pop s =
     (if Empty s then (Inl ''Pop from an empty stack'', s)
      else
        let result = entries s ! (length (entries s) - 1)
        in (Inr result, s\<lparr>entries := take (length (entries s) - 1) (entries s)\<rparr>))"

section \<open>The facade: Execute and Run\<close>

text \<open>
  The engine. Its machine is nil until \<open>Prepare\<close> has built one. The virtual machine
  is not under src/: its type and its \<open>Run\<close> method (the returned object and the
  error, if any) are parameters.
\<close>

record ('vm, 'env, 'o) Eval =
  Script :: string
  environment :: 'env
  constants :: "'o Object list"
  instructions :: "byte list"
  machine :: "'vm option"

definition Execute ::
  "('vm \<Rightarrow> 'h \<Rightarrow> 'o Object \<times> string option) \<Rightarrow> ('vm, 'env, 'o) Eval \<Rightarrow> 'h
     \<Rightarrow> ('o Object \<times> string option) outcome" where
  "Execute vm_Run e obj =
     (case machine e of
        None \<Rightarrow> Panic
      | Some m \<Rightarrow>
          (case vm_Run m obj of
             (out, Some err) \<Rightarrow> Returns (Null, Some err)
           | (out, None) \<Rightarrow> Returns (out, None)))"

definition Run ::
  "('o \<Rightarrow> bool) \<Rightarrow> ('vm \<Rightarrow> 'h \<Rightarrow> 'o Object \<times> string option) \<Rightarrow> ('vm, 'env, 'o) Eval \<Rightarrow> 'h
     \<Rightarrow> (bool \<times> string option) outcome" where
  "Run other_True vm_Run e obj =
     (case Execute vm_Run e obj of
        Panic \<Rightarrow> Panic
      | Returns (out, Some err) \<Rightarrow> Returns (False, Some err)
      | Returns (out, None) \<Rightarrow> Returns (True_obj other_True out, None))"

section \<open>Bytecode: opcodes and their lengths\<close>

text \<open>
  Package code (the opcode constants and \<open>code.Length\<close>) is not under src/. The
  numeric values of the opcodes the optimizer names are parameters, the fields of a
  table, and so is the set of opcodes that carry an argument.
\<close>

record code_table =
  OpPush :: byte
  OpNop :: byte
  OpEqual :: byte
  OpNotEqual :: byte
  OpMul :: byte
  OpAdd :: byte
  OpSub :: byte
  OpDiv :: byte
  OpTrue :: byte
  OpFalse :: byte
  OpJump :: byte
  OpJumpIfFalse :: byte
  OpReturn :: byte
  has_arg :: "byte \<Rightarrow> bool"

text \<open>
  Modelled from the spec: \<open>code.Length\<close> is not under src/. Every opcode has a fixed
  length of 1 or 3 bytes: the opcode, and a 16-bit argument when it has one.
\<close>

definition Length :: "code_table \<Rightarrow> byte \<Rightarrow> nat" where
  "Length T op = (if has_arg T op then 3 else 1)"

text \<open>
  What the optimizer relies on, from the opcode table of the spec: the opcodes it names
  are different bytes; \<open>OpPush\<close>, \<open>OpJump\<close> and \<open>OpJumpIfFalse\<close> carry an argument and
  the other ten do not.
\<close>

definition named_opcodes :: "code_table \<Rightarrow> byte list" where
  "named_opcodes T =
     [OpPush T, OpNop T, OpEqual T, OpNotEqual T, OpMul T, OpAdd T, OpSub T, OpDiv T,
      OpTrue T, OpFalse T, OpJump T, OpJumpIfFalse T, OpReturn T]"

definition code_ok :: "code_table \<Rightarrow> bool" where
  "code_ok T \<longleftrightarrow>
     distinct (named_opcodes T)
   \<and> has_arg T (OpPush T) \<and> has_arg T (OpJump T) \<and> has_arg T (OpJumpIfFalse T)
   \<and> \<not> has_arg T (OpNop T) \<and> \<not> has_arg T (OpEqual T) \<and> \<not> has_arg T (OpNotEqual T)
   \<and> \<not> has_arg T (OpMul T) \<and> \<not> has_arg T (OpAdd T) \<and> \<not> has_arg T (OpSub T)
   \<and> \<not> has_arg T (OpDiv T) \<and> \<not> has_arg T (OpTrue T) \<and> \<not> has_arg T (OpFalse T)
   \<and> \<not> has_arg T (OpReturn T)"

text \<open>A table to run the definitions on: the opcodes numbered in the order of the record.\<close>

definition sample_code :: code_table where
  "sample_code =
     \<lparr>OpPush = 1, OpNop = 2, OpEqual = 3, OpNotEqual = 4, OpMul = 5, OpAdd = 6, OpSub = 7,
      OpDiv = 8, OpTrue = 9, OpFalse = 10, OpJump = 11, OpJumpIfFalse = 12, OpReturn = 13,
      has_arg = (\<lambda>op. op = 0 \<or> op = 1 \<or> op = 11 \<or> op = 12)\<rparr>"

subsection \<open>Reading and writing the byte slice\<close>

text \<open>
  \<open>binary.BigEndian.Uint16\<close> and \<open>binary.BigEndian.PutUint16\<close> on two bytes, and the
  conversion \<open>uint16(x)\<close> of an \<open>int\<close>.
\<close>

definition Uint16 :: "byte \<Rightarrow> byte \<Rightarrow> nat" where
  "Uint16 b0 b1 = unat b0 * 256 + unat b1"

definition uint16 :: "int \<Rightarrow> nat" where
  "uint16 x = nat (x mod 65536)"

definition PutUint16 :: "nat \<Rightarrow> byte list" where
  "PutUint16 v = [of_nat (v div 256), of_nat v]"

text \<open>
  \<open>int(binary.BigEndian.Uint16(bytecode[ip+1 : ip+3]))\<close>. The slice expression panics
  when it runs past the slice; the slice is taken to have no spare capacity behind
  its length.
\<close>

definition opArg_at :: "byte list \<Rightarrow> nat \<Rightarrow> nat outcome" where
  "opArg_at bc ip =
     (if ip + 3 \<le> length bc then Returns (Uint16 (bc ! (ip + 1)) (bc ! (ip + 2))) else Panic)"

text \<open>The assignment \<open>bytecode[i] = x\<close>: an index out of range panics.\<close>

definition store :: "byte list \<Rightarrow> int \<Rightarrow> byte \<Rightarrow> byte list outcome" where
  "store bc i x = (if 0 \<le> i \<and> i < int (length bc) then Returns (bc[nat i := x]) else Panic)"

text \<open>Several assignments, one after the other.\<close>

fun stores :: "byte list \<Rightarrow> (int \<times> byte) list \<Rightarrow> byte list outcome" where
  "stores bc [] = Returns bc"
| "stores bc ((i, x) # ws) =
     (case store bc i x of Panic \<Rightarrow> Panic | Returns bc' \<Rightarrow> stores bc' ws)"

subsection \<open>The bytecode walker\<close>

text \<open>
  \<open>WalkBytecode\<close> of src/evalfilter.go: it fetches the opcode at \<open>ip\<close>, its length and,
  for an opcode longer than one byte, its argument; it calls the visitor with the
  offset, the opcode and the argument (nil for a one-byte opcode); it stops when the
  visitor returns an error or asks to stop, and else moves on by the length.
  The optimizer of the machine calls \<open>vm.WalkBytecode\<close>, which is not under src/:
  it is this walker, with the visitor's two results in the order the optimizer's
  visitors return them (\<open>(bool, error)\<close>). The walker reads the machine's bytecode and
  the visitors write it and their own variables: the state is the bytecode and the
  variables the visitor closes over.
\<close>

definition fetch :: "code_table \<Rightarrow> byte list \<Rightarrow> nat \<Rightarrow> (byte \<times> nat \<times> nat option) outcome" where
  "fetch T bc ip =
     (if length bc \<le> ip then Panic
      else
        let op = bc ! ip; opLen = Length T op
        in if opLen > 1
           then (case opArg_at bc ip of Panic \<Rightarrow> Panic
                 | Returns opArg \<Rightarrow> Returns (op, opLen, Some opArg))
           else Returns (op, opLen, None))"

type_synonym 'c visitor =
  "nat \<Rightarrow> byte \<Rightarrow> nat option \<Rightarrow> byte list \<times> 'c
     \<Rightarrow> ((byte list \<times> 'c) \<times> bool \<times> string option) outcome"

function WalkBytecode ::
  "code_table \<Rightarrow> 'c visitor \<Rightarrow> nat \<Rightarrow> nat \<Rightarrow> byte list \<times> 'c
     \<Rightarrow> ((byte list \<times> 'c) \<times> string option) outcome" where
  "WalkBytecode T callback ln ip st =
     (if ip < ln then
        (case fetch T (fst st) ip of
           Panic \<Rightarrow> Panic
         | Returns (op, opLen, opArg) \<Rightarrow>
             (case callback ip op opArg st of
                Panic \<Rightarrow> Panic
              | Returns (st', keepGoing, err) \<Rightarrow>
                  if err \<noteq> None then Returns (st', err)
                  else if \<not> keepGoing then Returns (st', None)
                  else WalkBytecode T callback ln (ip + opLen) st'))
      else Returns (st, None))"
  by pat_completeness auto
termination
  by (relation "measure (\<lambda>(T, callback, ln, ip, st). ln - ip)")
     (auto simp: fetch_def Let_def Length_def split: if_splits outcome.splits)

declare WalkBytecode.simps [simp del]

section \<open>The optimizer of the virtual machine\<close>

subsection \<open>Constant folding: optimizeMaths\<close>

text \<open>
  A tracked constant: the offset of an \<open>OpPush\<close> and the value it pushes (the struct
  \<open>Constants\<close> of the source, with its fields \<open>offset\<close> and \<open>value\<close>).
\<close>

type_synonym Constants = "nat \<times> int"

text \<open>
  The visitor of \<open>optimizeMaths\<close>. It closes over the list \<open>args\<close> of constants seen
  and the flag \<open>changed\<close>. \<open>a\<close> is the constant tracked last and \<open>b\<close> the one
  before it. The type assertion \<open>opArg.(int)\<close> panics on nil. Go's \<open>/\<close> on ints
  truncates; the operands here are not negative, where \<open>div\<close> truncates as well.
\<close>

definition maths_visitor :: "code_table \<Rightarrow> (Constants list \<times> bool) visitor" where
  "maths_visitor T offset opCode opArg st =
     (case st of (bc, args, changed) \<Rightarrow>
        if opCode = OpPush T then
          (case opArg of
             None \<Rightarrow> Panic
           | Some v \<Rightarrow> Returns ((bc, args @ [(offset, int v)], changed), True, None))
        else if opCode = OpNop T then
          Returns ((bc, args, changed), True, None)
        else if opCode = OpEqual T \<or> opCode = OpNotEqual T then
          (if length args \<ge> 2 then
             let a = args ! (length args - 1);
                 b = args ! (length args - 2)
             in (case stores bc
                        [(int (fst a), OpNop T), (int (fst a) + 1, OpNop T),
                         (int (fst a) + 2, OpNop T),
                         (int (fst b), OpNop T), (int (fst b) + 1, OpNop T),
                         (int (fst b) + 2, OpNop T)] of
                   Panic \<Rightarrow> Panic
                 | Returns bc1 \<Rightarrow>
                     (case (if opCode = OpEqual T
                            then store bc1 (int offset)
                                   (if snd a = snd b then OpTrue T else OpFalse T)
                            else Returns bc1) of
                        Panic \<Rightarrow> Panic
                      | Returns bc2 \<Rightarrow>
                          (case (if opCode = OpNotEqual T
                                 then store bc2 (int offset)
                                        (if snd a \<noteq> snd b then OpTrue T else OpFalse T)
                                 else Returns bc2) of
                             Panic \<Rightarrow> Panic
                           | Returns bc3 \<Rightarrow> Returns ((bc3, args, True), False, None))))
           else Returns ((bc, [], changed), True, None))
        else if opCode = OpMul T \<or> opCode = OpAdd T \<or> opCode = OpSub T \<or> opCode = OpDiv T then
          (if length args \<ge> 2 then
             let a = args ! (length args - 1);
                 b = args ! (length args - 2);
                 r0 = 0;
                 r1 = (if opCode = OpMul T then snd a * snd b else r0);
                 r2 = (if opCode = OpAdd T then snd a + snd b else r1);
                 r3 = (if opCode = OpSub T then snd b - snd a else r2)
             in if opCode = OpDiv T \<and> snd a = 0 then
                  Returns ((bc, args, changed), False, Some ''attempted division by zero'')
                else
                  let result = (if opCode = OpDiv T then snd b div snd a else r3)
                  in if result mod 1 = 0 \<and> result \<ge> 0 \<and> result \<le> 65534 then
                       (case stores bc
                               [(int (fst a) + 1, PutUint16 (uint16 result) ! 0),
                                (int (fst a) + 2, PutUint16 (uint16 result) ! 1),
                                (int (fst b), OpNop T), (int (fst b) + 1, OpNop T),
                                (int (fst b) + 2, OpNop T),
                                (int offset, OpNop T)] of
                          Panic \<Rightarrow> Panic
                        | Returns bc' \<Rightarrow> Returns ((bc', args, True), False, None))
                     else Returns ((bc, [], changed), True, None)
           else Returns ((bc, [], changed), True, None))
        else Returns ((bc, [], changed), True, None))"

text \<open>
  \<open>optimizeMaths\<close> walks the bytecode with this visitor. What the walker returns is
  dropped, and the function ends with \<open>return changed, nil\<close>: the result is the
  bytecode it leaves, the flag, and the error, which is always nil.
\<close>

definition VM_optimizeMaths :: "code_table \<Rightarrow> byte list \<Rightarrow> (byte list \<times> bool \<times> string option) outcome" where
  "VM_optimizeMaths T bytecode =
     (case WalkBytecode T (maths_visitor T) (length bytecode) 0 (bytecode, [], False) of
        Panic \<Rightarrow> Panic
      | Returns ((bc, args, changed), err) \<Rightarrow> Returns (bc, changed, None))"

subsection \<open>Jump simplification: optimizeJumps\<close>

text \<open>The loop \<open>for i < opArg { bytecode[i] = OpNop; i++ }\<close>.\<close>

function nop_fill :: "code_table \<Rightarrow> byte list \<Rightarrow> int \<Rightarrow> int \<Rightarrow> byte list outcome" where
  "nop_fill T bc i n =
     (if i < n then
        (case store bc i (OpNop T) of
           Panic \<Rightarrow> Panic
         | Returns bc' \<Rightarrow> nop_fill T bc' (i + 1) n)
      else Returns bc)"
  by pat_completeness auto
termination
  by (relation "measure (\<lambda>(T, bc, i, n). nat (n - i))") auto

declare nop_fill.simps [simp del]

text \<open>The visitor of \<open>optimizeJumps\<close> closes over \<open>prevOp\<close> and \<open>changed\<close>.\<close>

definition jumps_visitor :: "code_table \<Rightarrow> (byte \<times> bool) visitor" where
  "jumps_visitor T offset opCode opArg st =
     (case st of (bc, prevOp, changed) \<Rightarrow>
        if opCode = OpJumpIfFalse T then
          (if prevOp = OpTrue T then
             (case stores bc
                     [(int offset - 1, OpNop T), (int offset, OpNop T),
                      (int offset + 1, OpNop T), (int offset + 2, OpNop T)] of
                Panic \<Rightarrow> Panic
              | Returns bc' \<Rightarrow> Returns ((bc', prevOp, True), False, None))
           else if prevOp = OpFalse T then
             (case opArg of
                None \<Rightarrow> Panic
              | Some target \<Rightarrow>
                  (case nop_fill T bc (int offset - 1) (int target) of
                     Panic \<Rightarrow> Panic
                   | Returns bc' \<Rightarrow> Returns ((bc', prevOp, True), False, None)))
           else Returns ((bc, opCode, changed), True, None))
        else Returns ((bc, opCode, changed), True, None))"

definition VM_optimizeJumps :: "code_table \<Rightarrow> byte list \<Rightarrow> (byte list \<times> bool) outcome" where
  "VM_optimizeJumps T bytecode =
     (case WalkBytecode T (jumps_visitor T) (length bytecode) 0 (bytecode, OpNop T, False) of
        Panic \<Rightarrow> Panic
      | Returns ((bc, prevOp, changed), err) \<Rightarrow> Returns (bc, changed))"

text \<open>
  The loop \<open>for vm.optimizeJumps() { }\<close> of \<open>optimizeBytecode\<close>, with fuel: \<open>None\<close> when
  the fuel runs out before a call reports no change.
\<close>

fun VM_optimizeJumps_repeat :: "code_table \<Rightarrow> nat \<Rightarrow> byte list \<Rightarrow> byte list outcome option" where
  "VM_optimizeJumps_repeat T 0 bytecode = None"
| "VM_optimizeJumps_repeat T (Suc fuel) bytecode =
     (case VM_optimizeJumps T bytecode of
        Panic \<Rightarrow> Some Panic
      | Returns (bytecode', changed) \<Rightarrow>
          if changed then VM_optimizeJumps_repeat T fuel bytecode' else Some (Returns bytecode'))"

subsection \<open>NOP elision: removeNOPs\<close>

text \<open>
  The visitor of \<open>removeNOPs\<close> closes over the rebuilt program \<open>tmp\<close> and the map
  \<open>rewrite\<close> from old offsets to new ones.
\<close>

definition nops_visitor :: "code_table \<Rightarrow> (byte list \<times> (nat \<rightharpoonup> nat)) visitor" where
  "nops_visitor T offset opCode opArg st =
     (case st of (bc, tmp, rewrite) \<Rightarrow>
        if opCode = OpNop T then
          Returns ((bc, tmp, rewrite(offset \<mapsto> length tmp)), True, None)
        else
          Returns ((bc,
                    (tmp @ [opCode]) @
                      (case opArg of None \<Rightarrow> [] | Some v \<Rightarrow> PutUint16 (uint16 (int v))),
                    rewrite(offset \<mapsto> length tmp)), True, None))"

text \<open>
  The second loop of \<open>removeNOPs\<close>, over \<open>tmp\<close>: every jump gets the new offset of its
  target. \<open>None\<close> is the early \<open>return\<close> at a target the map has no entry for.
\<close>

function retarget ::
  "code_table \<Rightarrow> (nat \<rightharpoonup> nat) \<Rightarrow> nat \<Rightarrow> nat \<Rightarrow> byte list \<Rightarrow> byte list option outcome" where
  "retarget T rewrite ln ip tmp =
     (if ip < ln then
        (if length tmp \<le> ip then Panic
         else
           let op = tmp ! ip; opLen = Length T op
           in (case (if opLen > 1 then opArg_at tmp ip else Returns 0) of
                 Panic \<Rightarrow> Panic
               | Returns opArg \<Rightarrow>
                   if op = OpJump T \<or> op = OpJumpIfFalse T then
                     (case rewrite opArg of
                        None \<Rightarrow> Returns None
                      | Some newDst \<Rightarrow>
                          (case stores tmp
                                  [(int ip + 1, PutUint16 (uint16 (int newDst)) ! 0),
                                   (int ip + 2, PutUint16 (uint16 (int newDst)) ! 1)] of
                             Panic \<Rightarrow> Panic
                           | Returns tmp' \<Rightarrow> retarget T rewrite ln (ip + opLen) tmp'))
                   else retarget T rewrite ln (ip + opLen) tmp))
      else Returns (Some tmp))"
  by pat_completeness auto
termination
  by (relation "measure (\<lambda>(T, rewrite, ln, ip, tmp). ln - ip)")
     (auto simp: Length_def)

declare retarget.simps [simp del]

definition VM_removeNOPs :: "code_table \<Rightarrow> byte list \<Rightarrow> byte list outcome" where
  "VM_removeNOPs T bytecode =
     (case WalkBytecode T (nops_visitor T) (length bytecode) 0 (bytecode, [], Map.empty) of
        Panic \<Rightarrow> Panic
      | Returns ((bc, tmp, rewrite), err) \<Rightarrow>
          if length bc = length tmp then Returns bc
          else
            (case retarget T rewrite (length tmp) 0 tmp of
               Panic \<Rightarrow> Panic
             | Returns None \<Rightarrow> Returns bc
             | Returns (Some tmp') \<Rightarrow> Returns tmp'))"

subsection \<open>Dead-code truncation: removeDeadCode\<close>

text \<open>The visitor of \<open>removeDeadCode\<close> closes over \<open>tmp\<close> and \<open>changed\<close>.\<close>

definition deadcode_visitor :: "code_table \<Rightarrow> (byte list \<times> bool) visitor" where
  "deadcode_visitor T offset opCode opArg st =
     (case st of (bc, tmp, changed) \<Rightarrow>
        if opCode = OpJumpIfFalse T \<or> opCode = OpJump T then
          Returns ((bc, tmp, changed), False, None)
        else if opCode = OpReturn T then
          Returns ((bc, tmp @ [OpReturn T], True), False, None)
        else
          Returns ((bc,
                    (tmp @ [opCode]) @
                      (case opArg of None \<Rightarrow> [] | Some v \<Rightarrow> PutUint16 (uint16 (int v))),
                    changed), True, None))"

definition VM_removeDeadCode :: "code_table \<Rightarrow> byte list \<Rightarrow> byte list outcome" where
  "VM_removeDeadCode T bytecode =
     (case WalkBytecode T (deadcode_visitor T) (length bytecode) 0 (bytecode, [], False) of
        Panic \<Rightarrow> Panic
      | Returns ((bc, tmp, changed), err) \<Rightarrow> Returns (if changed then tmp else bc))"

section \<open>The optimizer of the engine\<close>

text \<open>
  src/unnamed/part_001 holds another form of the optimizer, as methods of the engine
  that loop over \<open>e.instructions\<close> themselves; \<open>Prepare\<close> of src/evalfilter.go calls it.
  Its four passes follow. The loop of \<open>optimizeMaths\<close>: \<open>ip\<close> and the window \<open>args\<close>
  are the loop's variables, the result is the instructions it leaves and whether it
  changed them. Its division \<open>b.value / a.value\<close> has no test in
  front of it: Go panics on an integer division by zero.
  Modelled from the spec: \<open>changeOperand\<close> of the compiler is not under src/; it
  writes the new argument, two bytes big-endian, behind the opcode at the offset.
\<close>

definition changeOperand :: "byte list \<Rightarrow> nat \<Rightarrow> int \<Rightarrow> byte list outcome" where
  "changeOperand instrs opPos operand =
     stores instrs [(int opPos + 1, PutUint16 (uint16 operand) ! 0),
                    (int opPos + 2, PutUint16 (uint16 operand) ! 1)]"

function Eval_optimizeMaths_loop ::
  "code_table \<Rightarrow> nat \<Rightarrow> nat \<Rightarrow> Constants list \<Rightarrow> byte list \<Rightarrow> (byte list \<times> bool) outcome" where
  "Eval_optimizeMaths_loop T ln ip args instrs =
     (if ip < ln then
        (if length instrs \<le> ip then Panic
         else
           let op = instrs ! ip; opLen = Length T op
           in (case (if opLen > 1 then opArg_at instrs ip else Returns 0) of
                 Panic \<Rightarrow> Panic
               | Returns opArg \<Rightarrow>
                   if op = OpPush T then
                     Eval_optimizeMaths_loop T ln (ip + opLen) (args @ [(ip, int opArg)]) instrs
                   else if op = OpNop T then
                     Eval_optimizeMaths_loop T ln (ip + opLen) args instrs
                   else if op = OpEqual T \<or> op = OpNotEqual T then
                     (if length args \<ge> 2 then
                        let a = args ! (length args - 1);
                            b = args ! (length args - 2)
                        in (case stores instrs
                                   [(int (fst a), OpNop T), (int (fst a) + 1, OpNop T),
                                    (int (fst a) + 2, OpNop T),
                                    (int (fst b), OpNop T), (int (fst b) + 1, OpNop T),
                                    (int (fst b) + 2, OpNop T)] of
                              Panic \<Rightarrow> Panic
                            | Returns i1 \<Rightarrow>
                                (case (if op = OpEqual T
                                       then store i1 (int ip)
                                              (if snd a = snd b then OpTrue T else OpFalse T)
                                       else Returns i1) of
                                   Panic \<Rightarrow> Panic
                                 | Returns i2 \<Rightarrow>
                                     (case (if op = OpNotEqual T
                                            then store i2 (int ip)
                                                   (if snd a \<noteq> snd b then OpTrue T
                                                    else OpFalse T)
                                            else Returns i2) of
                                        Panic \<Rightarrow> Panic
                                      | Returns i3 \<Rightarrow> Returns (i3, True))))
                      else Eval_optimizeMaths_loop T ln (ip + opLen) [] instrs)
                   else if op = OpMul T \<or> op = OpAdd T \<or> op = OpSub T \<or> op = OpDiv T then
                     (if length args \<ge> 2 then
                        let a = args ! (length args - 1);
                            b = args ! (length args - 2);
                            r0 = 0;
                            r1 = (if op = OpMul T then snd a * snd b else r0);
                            r2 = (if op = OpAdd T then snd a + snd b else r1);
                            r3 = (if op = OpSub T then snd b - snd a else r2)
                        in if op = OpDiv T \<and> snd a = 0 then Panic
                           else
                             let result = (if op = OpDiv T then snd b div snd a else r3)
                             in if result mod 1 = 0 \<and> result \<ge> 0 \<and> result \<le> 65534 then
                                  (case changeOperand instrs (fst a) result of
                                     Panic \<Rightarrow> Panic
                                   | Returns i1 \<Rightarrow>
                                       (case stores i1
                                               [(int (fst b), OpNop T),
                                                (int (fst b) + 1, OpNop T),
                                                (int (fst b) + 2, OpNop T),
                                                (int ip, OpNop T)] of
                                          Panic \<Rightarrow> Panic
                                        | Returns i2 \<Rightarrow> Returns (i2, True)))
                                else Eval_optimizeMaths_loop T ln (ip + opLen) [] instrs
                      else Eval_optimizeMaths_loop T ln (ip + opLen) [] instrs)
                   else Eval_optimizeMaths_loop T ln (ip + opLen) [] instrs))
      else Returns (instrs, False))"
  by pat_completeness auto
termination
  by (relation "measure (\<lambda>(T, ln, ip, args, instrs). ln - ip)")
     (auto simp: Length_def)

declare Eval_optimizeMaths_loop.simps [simp del]

definition Eval_optimizeMaths :: "code_table \<Rightarrow> byte list \<Rightarrow> (byte list \<times> bool) outcome" where
  "Eval_optimizeMaths T instrs = Eval_optimizeMaths_loop T (length instrs) 0 [] instrs"

text \<open>
  The engine's \<open>removeDeadCode\<close>. The loop runs while \<open>ip < ln && run\<close>; a jump leaves
  the function at once (\<open>None\<close>: the instructions stay), a return clears \<open>run\<close>, and
  after the loop the instructions become \<open>tmp\<close>.
\<close>

function Eval_removeDeadCode_loop ::
  "code_table \<Rightarrow> nat \<Rightarrow> nat \<Rightarrow> bool \<Rightarrow> byte list \<Rightarrow> byte list \<Rightarrow> byte list option outcome" where
  "Eval_removeDeadCode_loop T ln ip run tmp instrs =
     (if ip < ln \<and> run then
        (if length instrs \<le> ip then Panic
         else
           let op = instrs ! ip; opLen = Length T op
           in (case (if opLen > 1 then opArg_at instrs ip else Returns 0) of
                 Panic \<Rightarrow> Panic
               | Returns opArg \<Rightarrow>
                   if op = OpJumpIfFalse T \<or> op = OpJump T then Returns None
                   else if op = OpReturn T then
                     Eval_removeDeadCode_loop T ln (ip + opLen) False (tmp @ [OpReturn T]) instrs
                   else
                     Eval_removeDeadCode_loop T ln (ip + opLen) run
                       ((tmp @ [op]) @ (if opLen > 1 then PutUint16 (uint16 (int opArg)) else []))
                       instrs))
      else Returns (Some tmp))"
  by pat_completeness auto
termination
  by (relation "measure (\<lambda>(T, ln, ip, run, tmp, instrs). ln - ip)")
     (auto simp: Length_def)

declare Eval_removeDeadCode_loop.simps [simp del]

definition Eval_removeDeadCode :: "code_table \<Rightarrow> byte list \<Rightarrow> byte list outcome" where
  "Eval_removeDeadCode T instrs =
     (case Eval_removeDeadCode_loop T (length instrs) 0 True [] instrs of
        Panic \<Rightarrow> Panic
      | Returns None \<Rightarrow> Returns instrs
      | Returns (Some tmp) \<Rightarrow> Returns tmp)"

text \<open>
  The engine's \<open>removeNOPs\<close>: the first loop copies every instruction that is not an
  \<open>OpNop\<close> to \<open>tmp\<close> and records the new offset of every old one; the second loop gives
  every jump of \<open>tmp\<close> the entry \<open>rewrite[opArg]\<close> of its target, which for a missing
  key is Go's zero value 0; then the instructions become \<open>tmp\<close>.
\<close>

function Eval_removeNOPs_copy ::
  "code_table \<Rightarrow> nat \<Rightarrow> nat \<Rightarrow> byte list \<Rightarrow> (nat \<rightharpoonup> nat) \<Rightarrow> byte list
     \<Rightarrow> (byte list \<times> (nat \<rightharpoonup> nat)) outcome" where
  "Eval_removeNOPs_copy T ln ip tmp rewrite instrs =
     (if ip < ln then
        (if length instrs \<le> ip then Panic
         else
           let op = instrs ! ip; opLen = Length T op
           in (case (if opLen > 1 then opArg_at instrs ip else Returns 0) of
                 Panic \<Rightarrow> Panic
               | Returns opArg \<Rightarrow>
                   if op = OpNop T then
                     Eval_removeNOPs_copy T ln (ip + opLen) tmp (rewrite(ip \<mapsto> length tmp)) instrs
                   else
                     Eval_removeNOPs_copy T ln (ip + opLen)
                       ((tmp @ [op]) @ (if opLen > 1 then PutUint16 (uint16 (int opArg)) else []))
                       (rewrite(ip \<mapsto> length tmp)) instrs))
      else Returns (tmp, rewrite))"
  by pat_completeness auto
termination
  by (relation "measure (\<lambda>(T, ln, ip, tmp, rewrite, instrs). ln - ip)")
     (auto simp: Length_def)

declare Eval_removeNOPs_copy.simps [simp del]

function Eval_retarget ::
  "code_table \<Rightarrow> (nat \<rightharpoonup> nat) \<Rightarrow> nat \<Rightarrow> nat \<Rightarrow> byte list \<Rightarrow> byte list outcome" where
  "Eval_retarget T rewrite ln ip tmp =
     (if ip < ln then
        (if length tmp \<le> ip then Panic
         else
           let op = tmp ! ip; opLen = Length T op
           in (case (if opLen > 1 then opArg_at tmp ip else Returns 0) of
                 Panic \<Rightarrow> Panic
               | Returns opArg \<Rightarrow>
                   if op = OpJump T \<or> op = OpJumpIfFalse T then
                     let newDst = (case rewrite opArg of None \<Rightarrow> 0 | Some d \<Rightarrow> d)
                     in (case stores tmp
                                [(int ip + 1, PutUint16 (uint16 (int newDst)) ! 0),
                                 (int ip + 2, PutUint16 (uint16 (int newDst)) ! 1)] of
                           Panic \<Rightarrow> Panic
                         | Returns tmp' \<Rightarrow> Eval_retarget T rewrite ln (ip + opLen) tmp')
                   else Eval_retarget T rewrite ln (ip + opLen) tmp))
      else Returns tmp)"
  by pat_completeness auto
termination
  by (relation "measure (\<lambda>(T, rewrite, ln, ip, tmp). ln - ip)")
     (auto simp: Length_def)

declare Eval_retarget.simps [simp del]

definition Eval_removeNOPs :: "code_table \<Rightarrow> byte list \<Rightarrow> byte list outcome" where
  "Eval_removeNOPs T instrs =
     (case Eval_removeNOPs_copy T (length instrs) 0 [] Map.empty instrs of
        Panic \<Rightarrow> Panic
      | Returns (tmp, rewrite) \<Rightarrow> Eval_retarget T rewrite (length tmp) 0 tmp)"

text \<open>
  The engine's \<open>optimizeJumps\<close>: after an \<open>OpTrue\<close> the four bytes become \<open>OpNop\<close>; after
  an \<open>OpFalse\<close> the \<open>OpFalse\<close> becomes \<open>OpNop\<close> and the conditional jump becomes an
  \<open>OpJump\<close> with the argument it has. Either way the function returns \<open>true\<close> at once.
\<close>

function Eval_optimizeJumps_loop ::
  "code_table \<Rightarrow> nat \<Rightarrow> nat \<Rightarrow> byte \<Rightarrow> byte list \<Rightarrow> (byte list \<times> bool) outcome" where
  "Eval_optimizeJumps_loop T ln ip prevOp instrs =
     (if ip < ln then
        (if length instrs \<le> ip then Panic
         else
           let op = instrs ! ip; opLen = Length T op
           in if op = OpJumpIfFalse T \<and> prevOp = OpTrue T then
                (case stores instrs
                        [(int ip - 1, OpNop T), (int ip, OpNop T),
                         (int ip + 1, OpNop T), (int ip + 2, OpNop T)] of
                   Panic \<Rightarrow> Panic
                 | Returns i1 \<Rightarrow> Returns (i1, True))
              else if op = OpJumpIfFalse T \<and> prevOp = OpFalse T then
                (case stores instrs [(int ip - 1, OpNop T), (int ip, OpJump T)] of
                   Panic \<Rightarrow> Panic
                 | Returns i1 \<Rightarrow> Returns (i1, True))
              else Eval_optimizeJumps_loop T ln (ip + opLen) op instrs)
      else Returns (instrs, False))"
  by pat_completeness auto
termination
  by (relation "measure (\<lambda>(T, ln, ip, prevOp, instrs). ln - ip)")
     (auto simp: Length_def)

declare Eval_optimizeJumps_loop.simps [simp del]

definition Eval_optimizeJumps :: "code_table \<Rightarrow> byte list \<Rightarrow> (byte list \<times> bool) outcome" where
  "Eval_optimizeJumps T instrs = Eval_optimizeJumps_loop T (length instrs) 0 (OpNop T) instrs"

text \<open>
  The loop \<open>for e.optimizeJumps() { changes++ }\<close> of the engine's \<open>optimize\<close>, with
  fuel: \<open>None\<close> when the fuel runs out before a call reports no change.
\<close>

fun Eval_optimizeJumps_repeat :: "code_table \<Rightarrow> nat \<Rightarrow> byte list \<Rightarrow> byte list outcome option" where
  "Eval_optimizeJumps_repeat T 0 instrs = None"
| "Eval_optimizeJumps_repeat T (Suc fuel) instrs =
     (case Eval_optimizeJumps T instrs of
        Panic \<Rightarrow> Some Panic
      | Returns (instrs', changed) \<Rightarrow>
          if changed then Eval_optimizeJumps_repeat T fuel instrs' else Some (Returns instrs'))"

section \<open>Programs as lists of instructions\<close>

text \<open>
  The walker cuts the bytecode into instructions: an opcode and, when the opcode has
  an argument, the two bytes of it. A well-formed program is the concatenation of
  such instructions, and the walker visits the first byte of each.
\<close>

definition instr_ok :: "code_table \<Rightarrow> byte list \<Rightarrow> bool" where
  "instr_ok T i \<longleftrightarrow> i \<noteq> [] \<and> length i = Length T (hd i)"

definition instr_arg :: "code_table \<Rightarrow> byte list \<Rightarrow> nat option" where
  "instr_arg T i = (if has_arg T (hd i) then Some (Uint16 (i ! 1) (i ! 2)) else None)"

definition is_jump :: "code_table \<Rightarrow> byte list \<Rightarrow> bool" where
  "is_jump T i \<longleftrightarrow> hd i = OpJump T \<or> hd i = OpJumpIfFalse T"

text \<open>
  For the NOP elision: the instructions that stay, the offsets the walker visits, and
  the offset an old offset moves to, which is the number of bytes of the staying
  instructions in front of it.
\<close>

definition live :: "code_table \<Rightarrow> byte list \<Rightarrow> bool" where
  "live T i \<longleftrightarrow> hd i \<noteq> OpNop T"

definition jump_target :: "byte list \<Rightarrow> nat" where
  "jump_target i = Uint16 (i ! 1) (i ! 2)"

fun offsets :: "nat \<Rightarrow> byte list list \<Rightarrow> nat list" where
  "offsets off [] = []"
| "offsets off (i # is) = off # offsets (off + length i) is"

fun new_offset :: "code_table \<Rightarrow> byte list list \<Rightarrow> nat \<Rightarrow> nat" where
  "new_offset T [] t = 0"
| "new_offset T (i # is) t =
     (if t < length i then 0
      else (if live T i then length i else 0) + new_offset T is (t - length i))"

text \<open>The map \<open>rewrite\<close> as the first walk of \<open>removeNOPs\<close> builds it, entry by entry.\<close>

fun rewrite_from ::
  "code_table \<Rightarrow> nat \<Rightarrow> nat \<Rightarrow> byte list list \<Rightarrow> (nat \<rightharpoonup> nat) \<Rightarrow> (nat \<rightharpoonup> nat)" where
  "rewrite_from T off new [] rw = rw"
| "rewrite_from T off new (i # is) rw =
     rewrite_from T (off + length i) (if live T i then new + length i else new) is
       (rw(off \<mapsto> new))"

text \<open>A jump with its target replaced by the new offset of the target.\<close>

definition relocate :: "code_table \<Rightarrow> byte list list \<Rightarrow> byte list \<Rightarrow> byte list" where
  "relocate T is j =
     (if is_jump T j then [hd j] @ PutUint16 (new_offset T is (jump_target j)) else j)"

text \<open>
  The same for the engine's second loop, which reads the map with \<open>rewrite[opArg]\<close>:
  a target without an entry reads as 0.
\<close>

definition relocate_by :: "code_table \<Rightarrow> (nat \<rightharpoonup> nat) \<Rightarrow> byte list \<Rightarrow> byte list" where
  "relocate_by T M j =
     (if is_jump T j
      then [hd j] @ PutUint16 (case M (jump_target j) of None \<Rightarrow> 0 | Some d \<Rightarrow> d)
      else j)"

text \<open>
  For the jump simplification: a run of instructions in which no \<open>OpJumpIfFalse\<close>
  comes right after an \<open>OpTrue\<close> or an \<open>OpFalse\<close> (\<open>prevOp\<close> is the opcode in front of
  the run), the opcode the walker has seen last after such a run, and a bytecode with
  the bytes from offset \<open>p\<close> up to, not including, offset \<open>t\<close> overwritten by \<open>OpNop\<close>.
\<close>

fun branch_free :: "code_table \<Rightarrow> byte \<Rightarrow> byte list list \<Rightarrow> bool" where
  "branch_free T prevOp [] = True"
| "branch_free T prevOp (i # is) =
     (\<not> (hd i = OpJumpIfFalse T \<and> (prevOp = OpTrue T \<or> prevOp = OpFalse T))
      \<and> branch_free T (hd i) is)"

fun last_op :: "byte \<Rightarrow> byte list list \<Rightarrow> byte" where
  "last_op prevOp [] = prevOp"
| "last_op prevOp (i # is) = last_op (hd i) is"

definition nop_range :: "code_table \<Rightarrow> byte list \<Rightarrow> nat \<Rightarrow> nat \<Rightarrow> byte list" where
  "nop_range T bc p t = map (\<lambda>k. if p \<le> k \<and> k < t then OpNop T else bc ! k) [0..<length bc]"

text \<open>The number of such pairs in a run of instructions.\<close>

fun pairs :: "code_table \<Rightarrow> byte \<Rightarrow> byte list list \<Rightarrow> nat" where
  "pairs T prevOp [] = 0"
| "pairs T prevOp (i # is) =
     (if hd i = OpJumpIfFalse T \<and> (prevOp = OpTrue T \<or> prevOp = OpFalse T) then 1 else 0)
     + pairs T (hd i) is"

text \<open>
  For the loop of the machine's pass: an offset is a boundary of a program when an
  instruction starts there or the program ends there; \<open>forward\<close> says that every
  \<open>OpJumpIfFalse\<close> right after an \<open>OpFalse\<close> in the run \<open>is\<close> (which starts at offset
  \<open>off\<close> of the program \<open>js\<close>, behind the opcode \<open>prevOp\<close>) has a target that is not in
  front of the jump and is a boundary of \<open>js\<close>.
\<close>

definition boundary :: "byte list list \<Rightarrow> nat \<Rightarrow> bool" where
  "boundary js t \<longleftrightarrow> t \<in> set (offsets 0 js) \<or> t = length (concat js)"

fun forward :: "code_table \<Rightarrow> byte list list \<Rightarrow> nat \<Rightarrow> byte \<Rightarrow> byte list list \<Rightarrow> bool" where
  "forward T js off prevOp [] = True"
| "forward T js off prevOp (i # is) =
     ((hd i = OpJumpIfFalse T \<and> prevOp = OpFalse T \<longrightarrow>
         off \<le> jump_target i \<and> boundary js (jump_target i))
      \<and> forward T js (off + length i) (hd i) is)"

text \<open>
  For the constant folding. The pass stops at the first operator it acts on, so it
  reaches an instruction when it has left every instruction in front of it alone.
  \<open>fires\<close> says when the pass acts on an opcode, given the values \<open>vs\<close> of the constants
  in the window: two constants are there, and the opcode is a comparison, a division
  by the constant zero, or an arithmetic operator with its result in \<open>[0, 65534]\<close>.
  \<open>quiet\<close> says that the pass, coming with the values \<open>vs\<close>, acts on none of the
  instructions \<open>is\<close>. \<open>track\<close> is the window behind such instructions: a push is added
  with its offset, an \<open>OpNop\<close> changes nothing, any other instruction empties the
  window. \<open>fold_result\<close> is the number the pass computes for an operator from the
  values of \<open>b\<close> and \<open>a\<close>, and \<open>folded\<close> the bytecode after a fold: the argument of the
  push at \<open>aoff\<close> holds the result, the push at \<open>boff\<close> and the operator at \<open>offset\<close> are
  \<open>OpNop\<close> bytes.
\<close>

definition push_value :: "byte list \<Rightarrow> int" where
  "push_value i = int (Uint16 (i ! 1) (i ! 2))"

fun track :: "code_table \<Rightarrow> nat \<Rightarrow> Constants list \<Rightarrow> byte list list \<Rightarrow> Constants list" where
  "track T off args [] = args"
| "track T off args (i # is) =
     track T (off + length i)
       (if hd i = OpPush T then args @ [(off, push_value i)]
        else if hd i = OpNop T then args
        else [])
       is"

definition fold_result :: "code_table \<Rightarrow> byte \<Rightarrow> int \<Rightarrow> int \<Rightarrow> int" where
  "fold_result T op bv av =
     (if op = OpMul T then av * bv
      else if op = OpAdd T then av + bv
      else if op = OpSub T then bv - av
      else bv div av)"

definition fires :: "code_table \<Rightarrow> int list \<Rightarrow> byte \<Rightarrow> bool" where
  "fires T vs op \<longleftrightarrow>
     2 \<le> length vs
     \<and> (op = OpEqual T \<or> op = OpNotEqual T
        \<or> ((op = OpMul T \<or> op = OpAdd T \<or> op = OpSub T \<or> op = OpDiv T)
           \<and> ((op = OpDiv T \<and> vs ! (length vs - 1) = 0)
              \<or> (0 \<le> fold_result T op (vs ! (length vs - 2)) (vs ! (length vs - 1))
                 \<and> fold_result T op (vs ! (length vs - 2)) (vs ! (length vs - 1)) \<le> 65534))))"

fun quiet :: "code_table \<Rightarrow> int list \<Rightarrow> byte list list \<Rightarrow> bool" where
  "quiet T vs [] = True"
| "quiet T vs (i # is) =
     (\<not> fires T vs (hd i)
      \<and> quiet T (if hd i = OpPush T then vs @ [push_value i]
                  else if hd i = OpNop T then vs
                  else [])
           is)"

definition folded :: "code_table \<Rightarrow> byte list \<Rightarrow> nat \<Rightarrow> nat \<Rightarrow> nat \<Rightarrow> int \<Rightarrow> byte list" where
  "folded T bc aoff boff offset result =
     bc[aoff + 1 := of_nat (nat result div 256), aoff + 2 := of_nat (nat result),
        boff := OpNop T, boff + 1 := OpNop T, boff + 2 := OpNop T, offset := OpNop T]"

section \<open>Properties of the stack\<close>

lemma Pop_Push: "Pop (Push v s) = (Inr v, s)"
  by (simp add: Pop_def Push_def Empty_def)

lemma Pop_empty: "Empty s \<Longrightarrow> Pop s = (Inl ''Pop from an empty stack'', s)"
  by (simp add: Pop_def)

lemma Pop_nonempty:
  assumes "\<not> Empty s"
  shows "fst (Pop s) = Inr (last (entries s))"
    and "entries (snd (Pop s)) = butlast (entries s)"
    and "Size (snd (Pop s)) + 1 = Size s"
  using assms
  by (simp_all add: Pop_def Empty_def Size_def Let_def last_conv_nth butlast_conv_take)

text \<open>
  C10. \<open>Pop\<close> returns an error exactly when the stack is empty, and then leaves the
  stack as it was (empty). On a non-empty stack it returns the entry pushed last and
  removes that entry only: all entries below stay, and \<open>Size\<close> goes down by exactly
  one. So \<open>Push v\<close> followed by \<open>Pop\<close> yields \<open>v\<close> and gives the stack \<open>s\<close> back.
\<close>

theorem Pop_contract:
  fixes s :: "'o Stack" and v :: "'o Object"
  shows "(isl (fst (Pop s)) \<longleftrightarrow> Empty s)
       \<and> (Empty s \<longrightarrow> snd (Pop s) = s \<and> Empty (snd (Pop s)))
       \<and> (\<not> Empty s \<longrightarrow>
            fst (Pop s) = Inr (last (entries s))
          \<and> entries s = entries (snd (Pop s)) @ [last (entries s)]
          \<and> Size (snd (Pop s)) + 1 = Size s)
       \<and> Pop (Push v s) = (Inr v, s)
       \<and> Size (Push v s) = Size s + 1"
proof -
  have a: "isl (fst (Pop s)) \<longleftrightarrow> Empty s"
    by (simp add: Pop_def Let_def)
  have b: "Empty s \<longrightarrow> snd (Pop s) = s \<and> Empty (snd (Pop s))"
    by (simp add: Pop_empty)
  have c: "\<not> Empty s \<longrightarrow>
            fst (Pop s) = Inr (last (entries s))
          \<and> entries s = entries (snd (Pop s)) @ [last (entries s)]
          \<and> Size (snd (Pop s)) + 1 = Size s"
  proof
    assume ne: "\<not> Empty s"
    have "entries s \<noteq> []" using ne by (simp add: Empty_def)
    then have "entries s = butlast (entries s) @ [last (entries s)]" by simp
    with Pop_nonempty [OF ne] show
      "fst (Pop s) = Inr (last (entries s))
          \<and> entries s = entries (snd (Pop s)) @ [last (entries s)]
          \<and> Size (snd (Pop s)) + 1 = Size s"
      by simp
  qed
  have d: "Size (Push v s) = Size s + 1"
    by (simp add: Push_def Size_def)
  from a b c d Pop_Push [of v s] show ?thesis by blast
qed

theorem Pop_contract_witness:
  "Pop (Push (Integer 7) (Push (String ''a'' 0) (New :: unit Stack)))
     = (Inr (Integer 7), Push (String ''a'' 0) New)
   \<and> \<not> Empty (Push (String ''a'' 0) (New :: unit Stack))
   \<and> fst (Pop (Push (String ''a'' 0) (New :: unit Stack))) = Inr (String ''a'' 0)
   \<and> Size (snd (Pop (Push (String ''a'' 0) (New :: unit Stack)))) + 1 = 1
   \<and> Empty (New :: unit Stack)
   \<and> isl (fst (Pop (New :: unit Stack)))
   \<and> snd (Pop (New :: unit Stack)) = New"
  using Pop_contract [of "Push (String ''a'' 0) (New :: unit Stack)" "Integer 7"]
    Pop_contract [of "New :: unit Stack" "Integer 7"]
  by (simp add: Empty_def New_def Push_def Size_def)

section \<open>Properties of the values\<close>

lemma fnv64a_Write_append:
  "fnv64a_Write h (xs @ ys) = fnv64a_Write (fnv64a_Write h xs) ys"
  by (induction xs arbitrary: h) simp_all

lemma fnv64a_zero_input:
  "fnv64a_Write offset64
     [CHR 0xD5, CHR 0x6B, CHR 0xB9, CHR 0x53, CHR 0x42, CHR 0x87, CHR 0x08, CHR 0x36] = 0"
  by (simp add: offset64_def prime64_def)

text \<open>
  C8, as stated, fails: the eight bytes d5 6b b9 53 42 87 08 36 drive the FNV-1a state
  to zero, and a zero byte keeps it there, so this string and the same string with a
  zero byte appended are two different \<open>String\<close> values with one hash key.
\<close>

theorem String_HashKey_collision:
  "hash_key (String [CHR 0xD5, CHR 0x6B, CHR 0xB9, CHR 0x53, CHR 0x42, CHR 0x87, CHR 0x08, CHR 0x36] 0
              :: unit Object)
     = hash_key (String ([CHR 0xD5, CHR 0x6B, CHR 0xB9, CHR 0x53, CHR 0x42, CHR 0x87, CHR 0x08, CHR 0x36]
                         @ [CHR 0x00]) 0)
   \<and> (String [CHR 0xD5, CHR 0x6B, CHR 0xB9, CHR 0x53, CHR 0x42, CHR 0x87, CHR 0x08, CHR 0x36] 0
              :: unit Object)
     \<noteq> String ([CHR 0xD5, CHR 0x6B, CHR 0xB9, CHR 0x53, CHR 0x42, CHR 0x87, CHR 0x08, CHR 0x36]
               @ [CHR 0x00]) 0"
proof -
  let ?s = "[CHR 0xD5, CHR 0x6B, CHR 0xB9, CHR 0x53, CHR 0x42, CHR 0x87, CHR 0x08, CHR 0x36]"
  have "fnv64a_Write offset64 (?s @ [CHR 0x00]) = fnv64a_Write 0 [CHR 0x00]"
    by (simp only: fnv64a_Write_append fnv64a_zero_input)
  also have "\<dots> = 0"
    by simp
  finally have "String_HashKey (?s @ [CHR 0x00]) = String_HashKey ?s"
    by (simp only: String_HashKey_def fnv64a_zero_input String_Type.simps)
  then show ?thesis
    by simp
qed

text \<open>
  C8, amended. Hashable values that are structurally equal have equal hash keys: the
  key of an Integer is its tag and the 64 bits of its value, the key of a String is its
  tag and the FNV-1a hash of its bytes (the iteration offset plays no part). Two
  Integers have equal keys exactly when their values are equal, and an Integer and a
  String never have the same key. Distinct Strings are not promised distinct keys.
\<close>

theorem hash_key_equal_values:
  fixes a b :: int64 and s :: string and off off' :: int
  shows "(hash_key (Integer a :: 'o Object) = hash_key (Integer b :: 'o Object) \<longleftrightarrow> a = b)
       \<and> hash_key (Integer a :: 'o Object) = Some (HashKey INTEGER a)
       \<and> hash_key (String s off :: 'o Object) = Some (HashKey STRING (fnv64a_Write offset64 s))
       \<and> hash_key (String s off :: 'o Object) = hash_key (String s off' :: 'o Object)
       \<and> hash_key (Integer a :: 'o Object) \<noteq> hash_key (String s off :: 'o Object)"
  by (simp add: Integer_HashKey_def String_HashKey_def)

section \<open>Properties of the facade\<close>

text \<open>
  C9. When \<open>Execute\<close> returns a value and no error, \<open>Run\<close> returns the truthiness of
  that value and no error; an Integer is truthy exactly when its signed value is
  greater than 0 and a String exactly when it is not empty. When \<open>Execute\<close> returns an
  error, \<open>Run\<close> returns false and that error. On a prepared engine (one that has its
  machine) \<open>Execute\<close> returns what the machine's \<open>Run\<close> returns.
\<close>

theorem Run_truthiness:
  fixes e :: "('vm, 'env, 'o) Eval"
  shows "(Execute vm_Run e obj = Returns (out, None)
            \<longrightarrow> Run other_True vm_Run e obj = Returns (True_obj other_True out, None))
       \<and> (Execute vm_Run e obj = Returns (out, Some err)
            \<longrightarrow> Run other_True vm_Run e obj = Returns (False, Some err))
       \<and> (machine e = Some m \<and> vm_Run m obj = (out, None)
            \<longrightarrow> Execute vm_Run e obj = Returns (out, None))
       \<and> (machine e = Some m \<and> vm_Run m obj = (out, Some err)
            \<longrightarrow> (\<exists>out'. Execute vm_Run e obj = Returns (out', Some err)))
       \<and> (True_obj other_True (Integer v) \<longleftrightarrow> 0 < sint v)
       \<and> (True_obj other_True (String s off) \<longleftrightarrow> s \<noteq> [])"
  by (simp add: Run_def Execute_def word_sless_alt)

theorem Run_truthiness_witness:
  "Execute (\<lambda>(m :: unit) (h :: unit). (Integer 5 :: unit Object, None))
       \<lparr>Script = ''return 5;'', environment = (), constants = [], instructions = [],
        machine = Some ()\<rparr> ()
     = Returns (Integer 5, None)
   \<and> Run (\<lambda>x. False) (\<lambda>(m :: unit) (h :: unit). (Integer 5 :: unit Object, None))
       \<lparr>Script = ''return 5;'', environment = (), constants = [], instructions = [],
        machine = Some ()\<rparr> ()
     = Returns (True, None)
   \<and> Execute (\<lambda>(m :: unit) (h :: unit). (Integer 5 :: unit Object, Some ''fail''))
       \<lparr>Script = ''return 5;'', environment = (), constants = [], instructions = [],
        machine = Some ()\<rparr> ()
     = Returns (Null, Some ''fail'')
   \<and> Run (\<lambda>x. False) (\<lambda>(m :: unit) (h :: unit). (Integer 5 :: unit Object, Some ''fail''))
       \<lparr>Script = ''return 5;'', environment = (), constants = [], instructions = [],
        machine = Some ()\<rparr> ()
     = Returns (False, Some ''fail'')"
  using
    Run_truthiness [of "\<lambda>(m :: unit) (h :: unit). (Integer 5 :: unit Object, None)"
      "\<lparr>Script = ''return 5;'', environment = (), constants = [], instructions = [],
        machine = Some ()\<rparr>" "()" "Integer 5" "\<lambda>x. False" "''fail''" "()" 5 "''a''" 0]
    Run_truthiness [of "\<lambda>(m :: unit) (h :: unit). (Integer 5 :: unit Object, Some ''fail'')"
      "\<lparr>Script = ''return 5;'', environment = (), constants = [], instructions = [],
        machine = Some ()\<rparr>" "()" "Null" "\<lambda>x. False" "''fail''" "()" 5 "''a''" 0]
  by (simp add: Execute_def)

section \<open>Properties of the walker\<close>

lemma code_ok_neq:
  assumes "code_ok T"
  shows
    "OpPush T \<noteq> OpNop T" "OpPush T \<noteq> OpEqual T" "OpPush T \<noteq> OpNotEqual T" "OpPush T \<noteq> OpMul T" "OpPush T \<noteq> OpAdd T" "OpPush T \<noteq> OpSub T" "OpPush T \<noteq> OpDiv T" "OpPush T \<noteq> OpTrue T" "OpPush T \<noteq> OpFalse T" "OpPush T \<noteq> OpJump T" "OpPush T \<noteq> OpJumpIfFalse T" "OpPush T \<noteq> OpReturn T"
    "OpNop T \<noteq> OpPush T" "OpNop T \<noteq> OpEqual T" "OpNop T \<noteq> OpNotEqual T" "OpNop T \<noteq> OpMul T" "OpNop T \<noteq> OpAdd T" "OpNop T \<noteq> OpSub T" "OpNop T \<noteq> OpDiv T" "OpNop T \<noteq> OpTrue T" "OpNop T \<noteq> OpFalse T" "OpNop T \<noteq> OpJump T" "OpNop T \<noteq> OpJumpIfFalse T" "OpNop T \<noteq> OpReturn T"
    "OpEqual T \<noteq> OpPush T" "OpEqual T \<noteq> OpNop T" "OpEqual T \<noteq> OpNotEqual T" "OpEqual T \<noteq> OpMul T" "OpEqual T \<noteq> OpAdd T" "OpEqual T \<noteq> OpSub T" "OpEqual T \<noteq> OpDiv T" "OpEqual T \<noteq> OpTrue T" "OpEqual T \<noteq> OpFalse T" "OpEqual T \<noteq> OpJump T" "OpEqual T \<noteq> OpJumpIfFalse T" "OpEqual T \<noteq> OpReturn T"
    "OpNotEqual T \<noteq> OpPush T" "OpNotEqual T \<noteq> OpNop T" "OpNotEqual T \<noteq> OpEqual T" "OpNotEqual T \<noteq> OpMul T" "OpNotEqual T \<noteq> OpAdd T" "OpNotEqual T \<noteq> OpSub T" "OpNotEqual T \<noteq> OpDiv T" "OpNotEqual T \<noteq> OpTrue T" "OpNotEqual T \<noteq> OpFalse T" "OpNotEqual T \<noteq> OpJump T" "OpNotEqual T \<noteq> OpJumpIfFalse T" "OpNotEqual T \<noteq> OpReturn T"
    "OpMul T \<noteq> OpPush T" "OpMul T \<noteq> OpNop T" "OpMul T \<noteq> OpEqual T" "OpMul T \<noteq> OpNotEqual T" "OpMul T \<noteq> OpAdd T" "OpMul T \<noteq> OpSub T" "OpMul T \<noteq> OpDiv T" "OpMul T \<noteq> OpTrue T" "OpMul T \<noteq> OpFalse T" "OpMul T \<noteq> OpJump T" "OpMul T \<noteq> OpJumpIfFalse T" "OpMul T \<noteq> OpReturn T"
    "OpAdd T \<noteq> OpPush T" "OpAdd T \<noteq> OpNop T" "OpAdd T \<noteq> OpEqual T" "OpAdd T \<noteq> OpNotEqual T" "OpAdd T \<noteq> OpMul T" "OpAdd T \<noteq> OpSub T" "OpAdd T \<noteq> OpDiv T" "OpAdd T \<noteq> OpTrue T" "OpAdd T \<noteq> OpFalse T" "OpAdd T \<noteq> OpJump T" "OpAdd T \<noteq> OpJumpIfFalse T" "OpAdd T \<noteq> OpReturn T"
    "OpSub T \<noteq> OpPush T" "OpSub T \<noteq> OpNop T" "OpSub T \<noteq> OpEqual T" "OpSub T \<noteq> OpNotEqual T" "OpSub T \<noteq> OpMul T" "OpSub T \<noteq> OpAdd T" "OpSub T \<noteq> OpDiv T" "OpSub T \<noteq> OpTrue T" "OpSub T \<noteq> OpFalse T" "OpSub T \<noteq> OpJump T" "OpSub T \<noteq> OpJumpIfFalse T" "OpSub T \<noteq> OpReturn T"
    "OpDiv T \<noteq> OpPush T" "OpDiv T \<noteq> OpNop T" "OpDiv T \<noteq> OpEqual T" "OpDiv T \<noteq> OpNotEqual T" "OpDiv T \<noteq> OpMul T" "OpDiv T \<noteq> OpAdd T" "OpDiv T \<noteq> OpSub T" "OpDiv T \<noteq> OpTrue T" "OpDiv T \<noteq> OpFalse T" "OpDiv T \<noteq> OpJump T" "OpDiv T \<noteq> OpJumpIfFalse T" "OpDiv T \<noteq> OpReturn T"
    "OpTrue T \<noteq> OpPush T" "OpTrue T \<noteq> OpNop T" "OpTrue T \<noteq> OpEqual T" "OpTrue T \<noteq> OpNotEqual T" "OpTrue T \<noteq> OpMul T" "OpTrue T \<noteq> OpAdd T" "OpTrue T \<noteq> OpSub T" "OpTrue T \<noteq> OpDiv T" "OpTrue T \<noteq> OpFalse T" "OpTrue T \<noteq> OpJump T" "OpTrue T \<noteq> OpJumpIfFalse T" "OpTrue T \<noteq> OpReturn T"
    "OpFalse T \<noteq> OpPush T" "OpFalse T \<noteq> OpNop T" "OpFalse T \<noteq> OpEqual T" "OpFalse T \<noteq> OpNotEqual T" "OpFalse T \<noteq> OpMul T" "OpFalse T \<noteq> OpAdd T" "OpFalse T \<noteq> OpSub T" "OpFalse T \<noteq> OpDiv T" "OpFalse T \<noteq> OpTrue T" "OpFalse T \<noteq> OpJump T" "OpFalse T \<noteq> OpJumpIfFalse T" "OpFalse T \<noteq> OpReturn T"
    "OpJump T \<noteq> OpPush T" "OpJump T \<noteq> OpNop T" "OpJump T \<noteq> OpEqual T" "OpJump T \<noteq> OpNotEqual T" "OpJump T \<noteq> OpMul T" "OpJump T \<noteq> OpAdd T" "OpJump T \<noteq> OpSub T" "OpJump T \<noteq> OpDiv T" "OpJump T \<noteq> OpTrue T" "OpJump T \<noteq> OpFalse T" "OpJump T \<noteq> OpJumpIfFalse T" "OpJump T \<noteq> OpReturn T"
    "OpJumpIfFalse T \<noteq> OpPush T" "OpJumpIfFalse T \<noteq> OpNop T" "OpJumpIfFalse T \<noteq> OpEqual T" "OpJumpIfFalse T \<noteq> OpNotEqual T" "OpJumpIfFalse T \<noteq> OpMul T" "OpJumpIfFalse T \<noteq> OpAdd T" "OpJumpIfFalse T \<noteq> OpSub T" "OpJumpIfFalse T \<noteq> OpDiv T" "OpJumpIfFalse T \<noteq> OpTrue T" "OpJumpIfFalse T \<noteq> OpFalse T" "OpJumpIfFalse T \<noteq> OpJump T" "OpJumpIfFalse T \<noteq> OpReturn T"
    "OpReturn T \<noteq> OpPush T" "OpReturn T \<noteq> OpNop T" "OpReturn T \<noteq> OpEqual T" "OpReturn T \<noteq> OpNotEqual T" "OpReturn T \<noteq> OpMul T" "OpReturn T \<noteq> OpAdd T" "OpReturn T \<noteq> OpSub T" "OpReturn T \<noteq> OpDiv T" "OpReturn T \<noteq> OpTrue T" "OpReturn T \<noteq> OpFalse T" "OpReturn T \<noteq> OpJump T" "OpReturn T \<noteq> OpJumpIfFalse T"
  using assms by (auto simp: code_ok_def named_opcodes_def)

lemma code_ok_Length:
  assumes "code_ok T"
  shows "Length T (OpPush T) = 3" "Length T (OpJump T) = 3" "Length T (OpJumpIfFalse T) = 3"
    "Length T (OpNop T) = 1" "Length T (OpEqual T) = 1" "Length T (OpNotEqual T) = 1"
    "Length T (OpMul T) = 1" "Length T (OpAdd T) = 1" "Length T (OpSub T) = 1"
    "Length T (OpDiv T) = 1" "Length T (OpTrue T) = 1" "Length T (OpFalse T) = 1"
    "Length T (OpReturn T) = 1"
  using assms by (simp_all add: code_ok_def Length_def)

lemma code_ok_has_arg:
  assumes "code_ok T"
  shows "has_arg T (OpPush T)" "has_arg T (OpJump T)" "has_arg T (OpJumpIfFalse T)"
    "\<not> has_arg T (OpNop T)" "\<not> has_arg T (OpEqual T)" "\<not> has_arg T (OpNotEqual T)"
    "\<not> has_arg T (OpMul T)" "\<not> has_arg T (OpAdd T)" "\<not> has_arg T (OpSub T)"
    "\<not> has_arg T (OpDiv T)" "\<not> has_arg T (OpTrue T)" "\<not> has_arg T (OpFalse T)"
    "\<not> has_arg T (OpReturn T)"
  using assms by (simp_all add: code_ok_def)

lemma Uint16_less: "Uint16 b0 b1 < 65536"
proof -
  have "unat b0 < 256" "unat b1 < 256"
    using unsigned_less [of b0, where ?'a = nat] unsigned_less [of b1, where ?'a = nat] by simp_all
  then show ?thesis by (simp add: Uint16_def)
qed

lemma PutUint16_Uint16: "PutUint16 (uint16 (int (Uint16 b0 b1))) = [b0, b1]"
proof -
  have lt: "unat b0 < 256" "unat b1 < 256"
    using unsigned_less [of b0, where ?'a = nat] unsigned_less [of b1, where ?'a = nat] by simp_all
  have u: "uint16 (int (Uint16 b0 b1)) = Uint16 b0 b1"
    using Uint16_less [of b0 b1] by (simp add: uint16_def nat_mod_distrib)
  have d: "Uint16 b0 b1 div 256 = unat b0"
    using lt by (simp add: Uint16_def)
  have z: "(256 :: byte) = 0"
    by simp
  have m: "(of_nat (Uint16 b0 b1) :: byte) = b1"
    by (simp add: Uint16_def z)
  show ?thesis
    by (simp add: u PutUint16_def d m)
qed

lemma instr_ok_cases:
  assumes "instr_ok T i"
  obtains (one) op where "i = [op]" "\<not> has_arg T op"
        | (three) op b0 b1 where "i = [op, b0, b1]" "has_arg T op"
proof (cases "has_arg T (hd i)")
  case True
  with assms have "length i = 3" by (simp add: instr_ok_def Length_def)
  then obtain op b0 b1 where "i = [op, b0, b1]"
    by (auto simp: length_Suc_conv numeral_3_eq_3)
  with True three show ?thesis by simp
next
  case False
  with assms have "length i = 1" by (simp add: instr_ok_def Length_def)
  then obtain op where "i = [op]"
    by (auto simp: length_Suc_conv)
  with False one show ?thesis by simp
qed

lemma fetch_instr:
  assumes "instr_ok T i"
  shows "fetch T (pre @ i @ rest) (length pre) = Returns (hd i, length i, instr_arg T i)"
  using assms
  by (cases rule: instr_ok_cases)
     (simp_all add: fetch_def Let_def Length_def opArg_at_def instr_arg_def nth_append)

lemma reencode_instr:
  assumes "instr_ok T i"
  shows "[hd i] @ (case instr_arg T i of None \<Rightarrow> [] | Some v \<Rightarrow> PutUint16 (uint16 (int v))) = i"
  using assms
  by (cases rule: instr_ok_cases) (simp_all add: instr_arg_def PutUint16_Uint16)

lemma Walk_keep:
  assumes "instr_ok T i" and "length pre < ln"
    and "cb (length pre) (hd i) (instr_arg T i) (pre @ i @ rest, c) = Returns (st', True, None)"
  shows "WalkBytecode T cb ln (length pre) (pre @ i @ rest, c)
       = WalkBytecode T cb ln (length pre + length i) st'"
  using assms by (subst WalkBytecode.simps) (simp add: fetch_instr)

lemma Walk_stop:
  assumes "instr_ok T i" and "length pre < ln"
    and "cb (length pre) (hd i) (instr_arg T i) (pre @ i @ rest, c) = Returns (st', False, None)"
  shows "WalkBytecode T cb ln (length pre) (pre @ i @ rest, c) = Returns (st', None)"
  using assms by (subst WalkBytecode.simps) (simp add: fetch_instr)

lemma Walk_panic:
  assumes "instr_ok T i" and "length pre < ln"
    and "cb (length pre) (hd i) (instr_arg T i) (pre @ i @ rest, c) = Panic"
  shows "WalkBytecode T cb ln (length pre) (pre @ i @ rest, c) = Panic"
  using assms by (subst WalkBytecode.simps) (simp add: fetch_instr)

lemma Walk_end:
  assumes "ln \<le> ip"
  shows "WalkBytecode T cb ln ip st = Returns (st, None)"
  using assms by (subst WalkBytecode.simps) simp

lemma jump_three:
  assumes "code_ok T" "instr_ok T j" "is_jump T j"
  obtains op b0 b1 where "j = [op, b0, b1]" "op = OpJump T \<or> op = OpJumpIfFalse T"
  using assms(2)
proof (cases rule: instr_ok_cases)
  case (one op)
  with assms code_ok_has_arg [OF assms(1)] show ?thesis by (auto simp: is_jump_def)
next
  case (three op b0 b1)
  with assms that show ?thesis by (auto simp: is_jump_def)
qed

section \<open>Dead-code truncation\<close>

lemma deadcode_visitor_copy:
  assumes "instr_ok T i" "hd i \<noteq> OpJump T" "hd i \<noteq> OpJumpIfFalse T" "hd i \<noteq> OpReturn T"
  shows "deadcode_visitor T off (hd i) (instr_arg T i) (bc, tmp, ch)
       = Returns ((bc, tmp @ i, ch), True, None)"
  using assms reencode_instr [of T i] by (simp add: deadcode_visitor_def)

lemma deadcode_walk:
  assumes "\<forall>i\<in>set is. instr_ok T i \<and> hd i \<noteq> OpJump T \<and> hd i \<noteq> OpJumpIfFalse T
              \<and> hd i \<noteq> OpReturn T"
    and "ln = length pre + length (concat is) + length rest"
  shows "WalkBytecode T (deadcode_visitor T) ln (length pre) (pre @ concat is @ rest, tmp, ch)
       = WalkBytecode T (deadcode_visitor T) ln (length pre + length (concat is))
           (pre @ concat is @ rest, tmp @ concat is, ch)"
  using assms
proof (induction "is" arbitrary: pre tmp)
  case Nil
  then show ?case by simp
next
  case (Cons i "is")
  have i: "instr_ok T i" "hd i \<noteq> OpJump T" "hd i \<noteq> OpJumpIfFalse T" "hd i \<noteq> OpReturn T"
    using Cons.prems(1) by simp_all
  then have "i \<noteq> []" by (simp add: instr_ok_def)
  then have lt: "length pre < ln" using Cons.prems(2) by simp
  have "WalkBytecode T (deadcode_visitor T) ln (length pre) (pre @ i @ (concat is @ rest), tmp, ch)
      = WalkBytecode T (deadcode_visitor T) ln (length pre + length i)
          (pre @ i @ (concat is @ rest), tmp @ i, ch)"
    by (rule Walk_keep [OF i(1) lt]) (rule deadcode_visitor_copy [OF i])
  also have "\<dots> = WalkBytecode T (deadcode_visitor T) ln (length (pre @ i) + length (concat is))
          ((pre @ i) @ concat is @ rest, (tmp @ i) @ concat is, ch)"
    using Cons.IH [of "pre @ i" "tmp @ i"] Cons.prems by simp
  finally show ?case by (simp add: add.assoc)
qed

lemma code_ok_Return: "code_ok T \<Longrightarrow> instr_ok T [OpReturn T]"
  by (simp add: instr_ok_def code_ok_Length)

lemma removeDeadCode_no_jump:
  assumes T: "code_ok T"
    and ok: "\<forall>i\<in>set is. instr_ok T i \<and> hd i \<noteq> OpReturn T \<and> \<not> is_jump T i"
  shows "VM_removeDeadCode T (concat is @ OpReturn T # rest) = Returns (concat is @ [OpReturn T])"
proof -
  let ?bc = "concat is @ OpReturn T # rest"
  have 1: "WalkBytecode T (deadcode_visitor T) (length ?bc) (length ([] :: byte list))
             ([] @ concat is @ (OpReturn T # rest), [], False)
         = WalkBytecode T (deadcode_visitor T) (length ?bc) (length ([] :: byte list) + length (concat is))
             ([] @ concat is @ (OpReturn T # rest), [] @ concat is, False)"
    by (rule deadcode_walk) (use ok in \<open>auto simp: is_jump_def\<close>)
  have 2: "WalkBytecode T (deadcode_visitor T) (length ?bc) (length (concat is))
             (concat is @ [OpReturn T] @ rest, concat is, False)
         = Returns ((concat is @ [OpReturn T] @ rest, concat is @ [OpReturn T], True), None)"
    by (rule Walk_stop [OF code_ok_Return [OF T]])
       (simp_all add: deadcode_visitor_def code_ok_neq [OF T])
  from 1 2 show ?thesis by (simp add: VM_removeDeadCode_def)
qed

lemma removeDeadCode_jump:
  assumes T: "code_ok T"
    and ok: "\<forall>i\<in>set is. instr_ok T i \<and> hd i \<noteq> OpReturn T \<and> \<not> is_jump T i"
    and j: "instr_ok T j" "is_jump T j"
  shows "VM_removeDeadCode T (concat is @ j @ rest) = Returns (concat is @ j @ rest)"
proof -
  let ?bc = "concat is @ j @ rest"
  have "j \<noteq> []" using j by (simp add: instr_ok_def)
  have 1: "WalkBytecode T (deadcode_visitor T) (length ?bc) (length ([] :: byte list))
             ([] @ concat is @ (j @ rest), [], False)
         = WalkBytecode T (deadcode_visitor T) (length ?bc) (length ([] :: byte list) + length (concat is))
             ([] @ concat is @ (j @ rest), [] @ concat is, False)"
    by (rule deadcode_walk) (use ok in \<open>auto simp: is_jump_def\<close>)
  have 2: "WalkBytecode T (deadcode_visitor T) (length ?bc) (length (concat is))
             (concat is @ j @ rest, concat is, False)
         = Returns ((concat is @ j @ rest, concat is, False), None)"
    by (rule Walk_stop [OF j(1)])
       (use j \<open>j \<noteq> []\<close> in \<open>auto simp add: deadcode_visitor_def is_jump_def\<close>)
  from 1 2 show ?thesis by (simp add: VM_removeDeadCode_def)
qed


lemma VM_removeDeadCode_first_return:
  assumes T: "code_ok T"
    and ok: "\<forall>i\<in>set is. instr_ok T i \<and> hd i \<noteq> OpReturn T"
  shows "VM_removeDeadCode T (concat is @ OpReturn T # rest)
       = Returns (if \<exists>i\<in>set is. is_jump T i then concat is @ OpReturn T # rest
                  else concat is @ [OpReturn T])"
proof (cases "\<exists>i\<in>set is. is_jump T i")
  case False
  with ok have "\<forall>i\<in>set is. instr_ok T i \<and> hd i \<noteq> OpReturn T \<and> \<not> is_jump T i"
    by blast
  from removeDeadCode_no_jump [OF T this] False show ?thesis by simp
next
  case True
  then obtain is1 j is2 where split: "is = is1 @ j # is2" "is_jump T j"
      "\<forall>i\<in>set is1. \<not> is_jump T i"
    using split_list_first_prop [of "is" "is_jump T"] by blast
  have 1: "\<forall>i\<in>set is1. instr_ok T i \<and> hd i \<noteq> OpReturn T \<and> \<not> is_jump T i"
    using ok split by simp
  have j: "instr_ok T j" using ok split by simp
  have "VM_removeDeadCode T (concat is1 @ j @ (concat is2 @ OpReturn T # rest))
      = Returns (concat is1 @ j @ (concat is2 @ OpReturn T # rest))"
    by (rule removeDeadCode_jump [OF T 1 j split(2)])
  with True split(1) show ?thesis by simp
qed

lemma Eval_deadcode_copy:
  assumes i: "instr_ok T i" and lt: "length pre < ln"
    and n: "hd i \<noteq> OpJump T" "hd i \<noteq> OpJumpIfFalse T" "hd i \<noteq> OpReturn T"
  shows "Eval_removeDeadCode_loop T ln (length pre) True tmp (pre @ i @ rest)
       = Eval_removeDeadCode_loop T ln (length pre + length i) True (tmp @ i) (pre @ i @ rest)"
  using i
proof (cases rule: instr_ok_cases)
  case (one op)
  with n lt show ?thesis
    by (subst Eval_removeDeadCode_loop.simps) (simp add: Length_def nth_append Let_def)
next
  case (three op b0 b1)
  with n lt show ?thesis
    by (subst Eval_removeDeadCode_loop.simps)
       (simp add: Length_def nth_append opArg_at_def PutUint16_Uint16 numeral_3_eq_3 Let_def)
qed

lemma Eval_deadcode_walk:
  assumes "\<forall>i\<in>set is. instr_ok T i \<and> hd i \<noteq> OpJump T \<and> hd i \<noteq> OpJumpIfFalse T
              \<and> hd i \<noteq> OpReturn T"
    and "ln = length pre + length (concat is) + length rest"
  shows "Eval_removeDeadCode_loop T ln (length pre) True tmp (pre @ concat is @ rest)
       = Eval_removeDeadCode_loop T ln (length pre + length (concat is)) True (tmp @ concat is)
           (pre @ concat is @ rest)"
  using assms
proof (induction "is" arbitrary: pre tmp)
  case Nil
  then show ?case by simp
next
  case (Cons i "is")
  have i: "instr_ok T i" "hd i \<noteq> OpJump T" "hd i \<noteq> OpJumpIfFalse T" "hd i \<noteq> OpReturn T"
    using Cons.prems(1) by simp_all
  then have "i \<noteq> []" by (simp add: instr_ok_def)
  then have lt: "length pre < ln" using Cons.prems(2) by simp
  have "Eval_removeDeadCode_loop T ln (length pre) True tmp (pre @ i @ (concat is @ rest))
      = Eval_removeDeadCode_loop T ln (length pre + length i) True (tmp @ i)
          (pre @ i @ (concat is @ rest))"
    by (rule Eval_deadcode_copy [OF i(1) lt i(2-)])
  also have "\<dots> = Eval_removeDeadCode_loop T ln (length (pre @ i)) True (tmp @ i)
          ((pre @ i) @ concat is @ rest)"
    by simp
  also have "\<dots> = Eval_removeDeadCode_loop T ln (length (pre @ i) + length (concat is)) True
          ((tmp @ i) @ concat is) ((pre @ i) @ concat is @ rest)"
    by (rule Cons.IH) (use Cons.prems in simp_all)
  finally show ?case by (simp add: add.assoc)
qed

lemma Eval_removeDeadCode_no_jump:
  assumes T: "code_ok T"
    and ok: "\<forall>i\<in>set is. instr_ok T i \<and> hd i \<noteq> OpReturn T \<and> \<not> is_jump T i"
  shows "Eval_removeDeadCode T (concat is @ OpReturn T # rest) = Returns (concat is @ [OpReturn T])"
proof -
  let ?bc = "concat is @ OpReturn T # rest"
  note facts = code_ok_neq [OF T] code_ok_Length [OF T]
  have 1: "Eval_removeDeadCode_loop T (length ?bc) (length ([] :: byte list)) True []
             ([] @ concat is @ (OpReturn T # rest))
         = Eval_removeDeadCode_loop T (length ?bc) (length ([] :: byte list) + length (concat is)) True
             ([] @ concat is) ([] @ concat is @ (OpReturn T # rest))"
    by (rule Eval_deadcode_walk) (use ok in \<open>auto simp: is_jump_def\<close>)
  have 2: "Eval_removeDeadCode_loop T (length ?bc) (length (concat is)) True (concat is) ?bc
         = Eval_removeDeadCode_loop T (length ?bc) (length (concat is) + 1) False
             (concat is @ [OpReturn T]) ?bc"
    by (subst Eval_removeDeadCode_loop.simps) (simp add: facts nth_append Let_def)
  have 3: "Eval_removeDeadCode_loop T (length ?bc) (length (concat is) + 1) False
             (concat is @ [OpReturn T]) ?bc = Returns (Some (concat is @ [OpReturn T]))"
    by (subst Eval_removeDeadCode_loop.simps) simp
  from 1 2 3 show ?thesis by (simp add: Eval_removeDeadCode_def)
qed

lemma Eval_removeDeadCode_jump:
  assumes T: "code_ok T"
    and ok: "\<forall>i\<in>set is. instr_ok T i \<and> hd i \<noteq> OpReturn T \<and> \<not> is_jump T i"
    and j: "instr_ok T j" "is_jump T j"
  shows "Eval_removeDeadCode T (concat is @ j @ rest) = Returns (concat is @ j @ rest)"
proof -
  let ?bc = "concat is @ j @ rest"
  from T j obtain op b0 b1 where j3: "j = [op, b0, b1]" "op = OpJump T \<or> op = OpJumpIfFalse T"
    by (rule jump_three)
  have 1: "Eval_removeDeadCode_loop T (length ?bc) (length ([] :: byte list)) True []
             ([] @ concat is @ (j @ rest))
         = Eval_removeDeadCode_loop T (length ?bc) (length ([] :: byte list) + length (concat is)) True
             ([] @ concat is) ([] @ concat is @ (j @ rest))"
    by (rule Eval_deadcode_walk) (use ok in \<open>auto simp: is_jump_def\<close>)
  have 2: "Eval_removeDeadCode_loop T (length ?bc) (length (concat is)) True (concat is) ?bc
         = Returns None"
    using j3 code_ok_Length [OF T]
    by (subst Eval_removeDeadCode_loop.simps) (auto simp: nth_append opArg_at_def Let_def)
  from 1 2 show ?thesis by (simp add: Eval_removeDeadCode_def)
qed

lemma Eval_removeDeadCode_first_return:
  assumes T: "code_ok T"
    and ok: "\<forall>i\<in>set is. instr_ok T i \<and> hd i \<noteq> OpReturn T"
  shows "Eval_removeDeadCode T (concat is @ OpReturn T # rest)
       = Returns (if \<exists>i\<in>set is. is_jump T i then concat is @ OpReturn T # rest
                  else concat is @ [OpReturn T])"
proof (cases "\<exists>i\<in>set is. is_jump T i")
  case False
  with ok have "\<forall>i\<in>set is. instr_ok T i \<and> hd i \<noteq> OpReturn T \<and> \<not> is_jump T i"
    by blast
  from Eval_removeDeadCode_no_jump [OF T this] False show ?thesis by simp
next
  case True
  then obtain is1 j is2 where split: "is = is1 @ j # is2" "is_jump T j"
      "\<forall>i\<in>set is1. \<not> is_jump T i"
    using split_list_first_prop [of "is" "is_jump T"] by blast
  have 1: "\<forall>i\<in>set is1. instr_ok T i \<and> hd i \<noteq> OpReturn T \<and> \<not> is_jump T i"
    using ok split by simp
  have j: "instr_ok T j" using ok split by simp
  have "Eval_removeDeadCode T (concat is1 @ j @ (concat is2 @ OpReturn T # rest))
      = Returns (concat is1 @ j @ (concat is2 @ OpReturn T # rest))"
    by (rule Eval_removeDeadCode_jump [OF T 1 j split(2)])
  with True split(1) show ?thesis by simp
qed

text \<open>
  C7. Let the walker reach the first \<open>OpReturn\<close> after the instructions \<open>is\<close>.
  When no \<open>OpJump\<close> or \<open>OpJumpIfFalse\<close> is among them, \<open>removeDeadCode\<close> leaves
  these instructions and the \<open>OpReturn\<close>, and nothing of what follows it. When a
  jump is among them the bytecode stays as it is, whatever follows the return. Both
  forms of the pass, the machine's and the engine's, do so.
\<close>

theorem removeDeadCode_first_return:
  assumes T: "code_ok T"
    and ok: "\<forall>i\<in>set is. instr_ok T i \<and> hd i \<noteq> OpReturn T"
  shows "VM_removeDeadCode T (concat is @ OpReturn T # rest)
           = Returns (if \<exists>i\<in>set is. is_jump T i then concat is @ OpReturn T # rest
                      else concat is @ [OpReturn T])
       \<and> Eval_removeDeadCode T (concat is @ OpReturn T # rest)
           = Returns (if \<exists>i\<in>set is. is_jump T i then concat is @ OpReturn T # rest
                      else concat is @ [OpReturn T])"
  using VM_removeDeadCode_first_return [OF T ok] Eval_removeDeadCode_first_return [OF T ok]
  by simp

theorem removeDeadCode_first_return_witness:
  "VM_removeDeadCode sample_code (concat [[1, 0, 1]] @ OpReturn sample_code # [1, 0, 2, 13])
     = Returns [1, 0, 1, 13]
 \<and> Eval_removeDeadCode sample_code (concat [[1, 0, 1]] @ OpReturn sample_code # [1, 0, 2, 13])
     = Returns [1, 0, 1, 13]
 \<and> VM_removeDeadCode sample_code (concat [[1, 0, 1], [11, 0, 7]] @ OpReturn sample_code # [1, 0, 2, 13])
     = Returns [1, 0, 1, 11, 0, 7, 13, 1, 0, 2, 13]
 \<and> Eval_removeDeadCode sample_code (concat [[1, 0, 1], [11, 0, 7]] @ OpReturn sample_code # [1, 0, 2, 13])
     = Returns [1, 0, 1, 11, 0, 7, 13, 1, 0, 2, 13]"
  using removeDeadCode_first_return [of sample_code "[[1, 0, 1]]" "[1, 0, 2, 13]"]
    removeDeadCode_first_return [of sample_code "[[1, 0, 1], [11, 0, 7]]" "[1, 0, 2, 13]"]
  by (simp add: code_ok_def sample_code_def named_opcodes_def instr_ok_def Length_def is_jump_def)

section \<open>NOP elision\<close>

lemma nops_visitor_step:
  assumes "instr_ok T i"
  shows "nops_visitor T off (hd i) (instr_arg T i) (bc, tmp, rw)
       = Returns ((bc, tmp @ (if live T i then i else []), rw(off \<mapsto> length tmp)), True, None)"
  using assms reencode_instr [of T i] by (simp add: nops_visitor_def live_def)

lemma nops_walk:
  assumes "\<forall>i\<in>set is. instr_ok T i"
    and "ln = length pre + length (concat is) + length rest"
  shows "WalkBytecode T (nops_visitor T) ln (length pre) (pre @ concat is @ rest, tmp, rw)
       = WalkBytecode T (nops_visitor T) ln (length pre + length (concat is))
           (pre @ concat is @ rest, tmp @ concat (filter (live T) is),
            rewrite_from T (length pre) (length tmp) is rw)"
  using assms
proof (induction "is" arbitrary: pre tmp rw)
  case Nil
  then show ?case by simp
next
  case (Cons i "is")
  have i: "instr_ok T i" using Cons.prems(1) by simp
  then have "i \<noteq> []" by (simp add: instr_ok_def)
  then have lt: "length pre < ln" using Cons.prems(2) by simp
  let ?tmp = "tmp @ (if live T i then i else [])"
  have "WalkBytecode T (nops_visitor T) ln (length pre) (pre @ i @ (concat is @ rest), tmp, rw)
      = WalkBytecode T (nops_visitor T) ln (length pre + length i)
          (pre @ i @ (concat is @ rest), ?tmp, rw(length pre \<mapsto> length tmp))"
    by (rule Walk_keep [OF i lt]) (rule nops_visitor_step [OF i])
  also have "\<dots> = WalkBytecode T (nops_visitor T) ln (length (pre @ i))
          ((pre @ i) @ concat is @ rest, ?tmp, rw(length pre \<mapsto> length tmp))"
    by simp
  also have "\<dots> = WalkBytecode T (nops_visitor T) ln (length (pre @ i) + length (concat is))
          ((pre @ i) @ concat is @ rest, ?tmp @ concat (filter (live T) is),
           rewrite_from T (length (pre @ i)) (length ?tmp) is (rw(length pre \<mapsto> length tmp)))"
    by (rule Cons.IH) (use Cons.prems in simp_all)
  finally show ?case by (simp add: add.assoc)
qed

lemma offsets_ge: "t \<in> set (offsets off is) \<Longrightarrow> off \<le> t"
  by (induction "is" arbitrary: off) fastforce+

lemma new_offset_le: "new_offset T is t \<le> t"
proof (induction "is" arbitrary: t)
  case Nil
  then show ?case by simp
next
  case (Cons i "is")
  from Cons [of "t - length i"] show ?case by auto
qed

lemma rewrite_from_other:
  "t \<notin> set (offsets off is) \<Longrightarrow> rewrite_from T off new is rw t = rw t"
  by (induction "is" arbitrary: off new rw) auto

lemma rewrite_from_offsets:
  assumes "\<forall>i\<in>set is. i \<noteq> []" and "t \<in> set (offsets off is)"
  shows "rewrite_from T off new is rw t = Some (new + new_offset T is (t - off))"
  using assms
proof (induction "is" arbitrary: off new rw)
  case Nil
  then show ?case by simp
next
  case (Cons i "is")
  have ne: "i \<noteq> []" using Cons.prems(1) by simp
  show ?case
  proof (cases "t = off")
    case True
    then have "t \<notin> set (offsets (off + length i) is)"
      using offsets_ge [of t "off + length i" "is"] ne by auto
    then show ?thesis
      using True ne by (simp add: rewrite_from_other)
  next
    case False
    then have t: "t \<in> set (offsets (off + length i) is)" using Cons.prems(2) by simp
    then have ge: "off + length i \<le> t" by (rule offsets_ge)
    have "rewrite_from T (off + length i) (if live T i then new + length i else new) is
            (rw(off \<mapsto> new)) t
        = Some ((if live T i then new + length i else new) + new_offset T is (t - (off + length i)))"
      using Cons.IH [OF _ t] Cons.prems(1) by simp
    moreover have "\<not> t - off < length i" "t - off - length i = t - (off + length i)"
      using ge by simp_all
    ultimately show ?thesis by (simp add: add.assoc)
  qed
qed


lemma store_nat: "store bc (int k) x = (if k < length bc then Returns (bc[k := x]) else Panic)"
  by (simp add: store_def)

lemma stores_arg:
  "stores (pre @ [a, b, c] @ rest) [(int (length pre) + 1, x), (int (length pre) + 2, y)]
     = Returns (pre @ [a, x, y] @ rest)"
proof -
  have 1: "int (length pre) + 1 = int (length pre + 1)" "int (length pre) + 2 = int (length pre + 2)"
    by simp_all
  show ?thesis
    unfolding 1 stores.simps store_nat by (simp add: list_update_append)
qed

lemma uint16_small: "n < 65536 \<Longrightarrow> uint16 (int n) = n"
  by (simp add: uint16_def nat_mod_distrib)

lemma PutUint16_two: "\<exists>x y. PutUint16 n = [x, y]"
  by (simp add: PutUint16_def)

lemma retarget_other:
  assumes "instr_ok T j" "\<not> is_jump T j" "length pre < ln"
  shows "retarget T M ln (length pre) (pre @ j @ rest)
       = retarget T M ln (length pre + length j) (pre @ j @ rest)"
  using assms(1)
proof (cases rule: instr_ok_cases)
  case (one op)
  with assms show ?thesis
    by (subst retarget.simps) (simp add: is_jump_def Length_def nth_append)
next
  case (three op b0 b1)
  with assms show ?thesis
    by (subst retarget.simps) (simp add: is_jump_def Length_def nth_append opArg_at_def numeral_3_eq_3)
qed

lemma retarget_jump_missing:
  assumes "code_ok T" "instr_ok T j" "is_jump T j" "length pre < ln" "M (jump_target j) = None"
  shows "retarget T M ln (length pre) (pre @ j @ rest) = Returns None"
  using assms(1-3)
proof (cases rule: jump_three)
  case (1 op b0 b1)
  with assms code_ok_Length [OF assms(1)] show ?thesis
    by (subst retarget.simps) (auto simp: nth_append opArg_at_def jump_target_def)
qed

lemma retarget_jump_found:
  assumes "code_ok T" "instr_ok T j" "is_jump T j" "length pre < ln"
    "M (jump_target j) = Some n" "n < 65536"
  shows "retarget T M ln (length pre) (pre @ j @ rest)
       = retarget T M ln (length pre + length j) (pre @ ([hd j] @ PutUint16 n) @ rest)"
  using assms(1-3)
proof (cases rule: jump_three)
  case (1 op b0 b1)
  obtain x y where xy: "PutUint16 n = [x, y]" using PutUint16_two by blast
  have st: "stores (pre @ [op, b0, b1] @ rest) [(int (length pre) + 1, x), (int (length pre) + 2, y)]
     = Returns (pre @ [op, x, y] @ rest)"
    by (rule stores_arg)
  from 1 assms code_ok_Length [OF assms(1)] xy st show ?thesis
    by (subst retarget.simps) (auto simp: nth_append opArg_at_def jump_target_def uint16_small numeral_3_eq_3)
qed


lemma jump_target_less: "jump_target j < 65536"
  by (simp add: jump_target_def Uint16_less)

lemma relocate_other: "\<not> is_jump T j \<Longrightarrow> relocate T is j = j"
  by (simp add: relocate_def)

lemma length_relocate:
  assumes "code_ok T" "instr_ok T j"
  shows "length (relocate T is j) = length j"
proof (cases "is_jump T j")
  case True
  from assms True show ?thesis
    by (cases rule: jump_three) (auto simp: relocate_def PutUint16_def)
next
  case False
  then show ?thesis by (simp add: relocate_def)
qed

lemma retarget_walk:
  assumes T: "code_ok T"
    and ok: "\<forall>j\<in>set js. instr_ok T j"
    and M: "\<forall>t n. M t = Some n \<longrightarrow> n = new_offset T is t"
    and ln: "ln = length pre + length (concat js)"
  shows "retarget T M ln (length pre) (pre @ concat js)
       = Returns (if \<forall>j\<in>set js. is_jump T j \<longrightarrow> M (jump_target j) \<noteq> None
                  then Some (pre @ concat (map (relocate T is) js)) else None)"
  using ok ln
proof (induction js arbitrary: pre)
  case Nil
  then show ?case by (subst retarget.simps) simp
next
  case (Cons j js)
  have j: "instr_ok T j" using Cons.prems(1) by simp
  then have "j \<noteq> []" by (simp add: instr_ok_def)
  then have lt: "length pre < ln" using Cons.prems(2) by simp
  have okjs: "\<forall>j\<in>set js. instr_ok T j" using Cons.prems(1) by simp
  show ?case
  proof (cases "is_jump T j")
    case False
    have "retarget T M ln (length pre) (pre @ j @ concat js)
        = retarget T M ln (length pre + length j) (pre @ j @ concat js)"
      by (rule retarget_other [OF j False lt])
    also have "\<dots> = retarget T M ln (length (pre @ j)) ((pre @ j) @ concat js)"
      by simp
    also have "\<dots> = Returns (if \<forall>j\<in>set js. is_jump T j \<longrightarrow> M (jump_target j) \<noteq> None
                  then Some ((pre @ j) @ concat (map (relocate T is) js)) else None)"
      by (rule Cons.IH [OF okjs]) (use Cons.prems(2) in simp)
    finally show ?thesis using False by (simp add: relocate_other)
  next
    case True
    show ?thesis
    proof (cases "M (jump_target j)")
      case None
      have "retarget T M ln (length pre) (pre @ j @ concat js) = Returns None"
        by (rule retarget_jump_missing [where M = M, OF T j True lt None])
      with True None show ?thesis by auto
    next
      case (Some n)
      with M have n: "n = new_offset T is (jump_target j)" by blast
      then have n16: "n < 65536"
        using new_offset_le [of T "is" "jump_target j"] jump_target_less [of j] by simp
      have rel: "relocate T is j = [hd j] @ PutUint16 n"
        using True n by (simp add: relocate_def)
      have len: "length (relocate T is j) = length j"
        by (rule length_relocate [OF T j])
      have "retarget T M ln (length pre) (pre @ j @ concat js)
          = retarget T M ln (length pre + length j) (pre @ ([hd j] @ PutUint16 n) @ concat js)"
        by (rule retarget_jump_found [where M = M, OF T j True lt Some n16])
      also have "\<dots> = retarget T M ln (length (pre @ relocate T is j))
                          ((pre @ relocate T is j) @ concat js)"
        using rel len by simp
      also have "\<dots> = Returns (if \<forall>j\<in>set js. is_jump T j \<longrightarrow> M (jump_target j) \<noteq> None
                  then Some ((pre @ relocate T is j) @ concat (map (relocate T is) js)) else None)"
        by (rule Cons.IH [OF okjs]) (use Cons.prems(2) len in simp)
      finally show ?thesis using True Some by simp
    qed
  qed
qed

lemma nops_first_walk:
  assumes "\<forall>i\<in>set is. instr_ok T i"
  shows "WalkBytecode T (nops_visitor T) (length (concat is)) 0 (concat is, [], Map.empty)
       = Returns ((concat is, concat (filter (live T) is), rewrite_from T 0 0 is Map.empty), None)"
proof -
  have "WalkBytecode T (nops_visitor T) (length (concat is)) (length ([] :: byte list))
          ([] @ concat is @ [], [], Map.empty)
      = WalkBytecode T (nops_visitor T) (length (concat is)) (length ([] :: byte list) + length (concat is))
          ([] @ concat is @ [], [] @ concat (filter (live T) is),
           rewrite_from T (length ([] :: byte list)) (length ([] :: byte list)) is Map.empty)"
    by (rule nops_walk [OF assms]) simp
  then show ?thesis by (simp add: Walk_end)
qed

lemma rewrite_map:
  assumes "\<forall>i\<in>set is. instr_ok T i"
  shows "rewrite_from T 0 0 is Map.empty t
       = (if t \<in> set (offsets 0 is) then Some (new_offset T is t) else None)"
proof -
  have "\<forall>i\<in>set is. i \<noteq> []" using assms by (auto simp: instr_ok_def)
  from rewrite_from_offsets [OF this, of t 0 T 0 Map.empty]
    rewrite_from_other [of t 0 "is" T 0 Map.empty]
  show ?thesis by simp
qed

lemma length_concat_filter:
  assumes "\<forall>i\<in>set is. i \<noteq> []"
  shows "length (concat (filter P is)) \<le> length (concat is)"
    and "length (concat (filter P is)) = length (concat is) \<longleftrightarrow> (\<forall>i\<in>set is. P i)"
proof -
  show le: "length (concat (filter P xs)) \<le> length (concat xs)" for xs :: "'a list list"
    by (induction xs) auto
  from assms show "length (concat (filter P is)) = length (concat is) \<longleftrightarrow> (\<forall>i\<in>set is. P i)"
  proof (induction "is")
    case Nil
    then show ?case by simp
  next
    case (Cons i "is")
    then show ?case using le [of "is"] by auto
  qed
qed


lemma removeNOPs_cases:
  assumes T: "code_ok T" and ok: "\<forall>i\<in>set is. instr_ok T i"
  shows "VM_removeNOPs T (concat is)
       = Returns (if \<forall>i\<in>set is. live T i then concat is
                  else if \<forall>j\<in>set is. is_jump T j \<longrightarrow> jump_target j \<in> set (offsets 0 is)
                  then concat (map (relocate T is) (filter (live T) is))
                  else concat is)"
proof -
  let ?M = "rewrite_from T 0 0 is Map.empty"
  let ?js = "filter (live T) is"
  have ne: "\<forall>i\<in>set is. i \<noteq> []" using ok by (auto simp: instr_ok_def)
  have len: "length (concat is) = length (concat ?js) \<longleftrightarrow> (\<forall>i\<in>set is. live T i)"
    using length_concat_filter(2) [OF ne, of "live T"] by auto
  have jl: "is_jump T j \<Longrightarrow> live T j" for j
    using code_ok_neq [OF T] by (auto simp: is_jump_def live_def)
  have M: "\<forall>t n. ?M t = Some n \<longrightarrow> n = new_offset T is t"
    by (simp add: rewrite_map [OF ok])
  have okjs: "\<forall>j\<in>set ?js. instr_ok T j" using ok by simp
  have "retarget T ?M (length (concat ?js)) (length ([] :: byte list)) ([] @ concat ?js)
      = Returns (if \<forall>j\<in>set ?js. is_jump T j \<longrightarrow> ?M (jump_target j) \<noteq> None
                 then Some ([] @ concat (map (relocate T is) ?js)) else None)"
    by (rule retarget_walk [OF T okjs M]) simp
  moreover have "(\<forall>j\<in>set ?js. is_jump T j \<longrightarrow> ?M (jump_target j) \<noteq> None)
      \<longleftrightarrow> (\<forall>j\<in>set is. is_jump T j \<longrightarrow> jump_target j \<in> set (offsets 0 is))"
    using jl by (auto simp: rewrite_map [OF ok])
  ultimately have r: "retarget T ?M (length (concat ?js)) 0 (concat ?js)
      = Returns (if \<forall>j\<in>set is. is_jump T j \<longrightarrow> jump_target j \<in> set (offsets 0 is)
                 then Some (concat (map (relocate T is) ?js)) else None)"
    by simp
  show ?thesis
    unfolding VM_removeNOPs_def nops_first_walk [OF ok]
    by (auto simp: len r)
qed


lemma Uint16_PutUint16:
  assumes "n < 65536"
  shows "Uint16 (PutUint16 n ! 0) (PutUint16 n ! 1) = n"
proof -
  have "n div 256 < 256" using assms by simp
  then have 1: "unat (of_nat (n div 256) :: byte) = n div 256"
    by (simp add: unat_of_nat take_bit_nat_eq_self)
  have 2: "unat (of_nat n :: byte) = n mod 256"
    by (simp add: unat_of_nat take_bit_eq_mod)
  show ?thesis
    by (simp add: Uint16_def PutUint16_def 1 2)
qed

lemma PutUint16_Uint16': "PutUint16 (Uint16 b0 b1) = [b0, b1]"
  using PutUint16_Uint16 [of b0 b1] Uint16_less [of b0 b1] by (simp add: uint16_small)

lemma new_offset_all_live:
  assumes "\<forall>i\<in>set is. live T i \<and> i \<noteq> []" and "t \<in> set (offsets off is)"
  shows "new_offset T is (t - off) = t - off"
  using assms
proof (induction "is" arbitrary: off)
  case Nil
  then show ?case by simp
next
  case (Cons i "is")
  show ?case
  proof (cases "t = off")
    case True
    with Cons.prems show ?thesis by simp
  next
    case False
    then have t: "t \<in> set (offsets (off + length i) is)" using Cons.prems(2) by simp
    then have ge: "off + length i \<le> t" by (rule offsets_ge)
    have "new_offset T is (t - (off + length i)) = t - (off + length i)"
      using Cons.IH [OF _ t] Cons.prems(1) by simp
    moreover have "\<not> t - off < length i" "t - off - length i = t - (off + length i)"
      using ge by simp_all
    ultimately show ?thesis using Cons.prems(1) ge by simp
  qed
qed

lemma relocate_all_live:
  assumes T: "code_ok T" and ok: "\<forall>i\<in>set is. instr_ok T i"
    and lv: "\<forall>i\<in>set is. live T i"
    and j: "instr_ok T j" "is_jump T j \<longrightarrow> jump_target j \<in> set (offsets 0 is)"
  shows "relocate T is j = j"
proof (cases "is_jump T j")
  case False
  then show ?thesis by (simp add: relocate_def)
next
  case True
  have "\<forall>i\<in>set is. live T i \<and> i \<noteq> []" using ok lv by (auto simp: instr_ok_def)
  from new_offset_all_live [OF this, of "jump_target j" 0] j True
  have n: "new_offset T is (jump_target j) = jump_target j" by simp
  from T j(1) True show ?thesis
  proof (cases rule: jump_three)
    case (1 op b0 b1)
    with n have "new_offset T is (Uint16 b0 b1) = Uint16 b0 b1"
      by (simp add: jump_target_def)
    with 1 True show ?thesis
      by (simp add: relocate_def jump_target_def PutUint16_Uint16')
  qed
qed

lemma relocate_jump:
  assumes T: "code_ok T" and j: "instr_ok T j" "is_jump T j"
  shows "hd (relocate T is j) = hd j"
    and "jump_target (relocate T is j) = new_offset T is (jump_target j)"
    and "instr_ok T (relocate T is j)"
proof -
  have n: "new_offset T is (jump_target j) < 65536"
    using new_offset_le [of T "is" "jump_target j"] jump_target_less [of j] by simp
  show "hd (relocate T is j) = hd j" using j by (simp add: relocate_def)
  show "jump_target (relocate T is j) = new_offset T is (jump_target j)"
    using j Uint16_PutUint16 [OF n] by (simp add: relocate_def jump_target_def)
  from T j show "instr_ok T (relocate T is j)"
    by (cases rule: jump_three)
       (auto simp: relocate_def instr_ok_def PutUint16_def Length_def code_ok_has_arg [OF T])
qed

lemma new_offset_prefix:
  assumes "\<forall>i\<in>set is1. i \<noteq> []"
  shows "new_offset T (is1 @ rest) (length (concat is1) + k)
       = length (concat (filter (live T) is1)) + new_offset T rest k"
  using assms by (induction is1) (simp_all add: add.assoc)

lemma new_offset_nops:
  assumes "\<forall>n\<in>set ns. \<not> live T n \<and> length n = 1" and "l \<noteq> []" and "k \<le> length ns"
  shows "new_offset T (ns @ l # is2) k = 0"
  using assms
proof (induction ns arbitrary: k)
  case Nil
  then show ?case by simp
next
  case (Cons n ns)
  show ?case
  proof (cases k)
    case 0
    with Cons.prems show ?thesis by simp
  next
    case (Suc k')
    with Cons.prems have "new_offset T (ns @ l # is2) k' = 0"
      by (intro Cons.IH) simp_all
    with Suc Cons.prems show ?thesis by simp
  qed
qed


lemma Eval_nops_step:
  assumes i: "instr_ok T i" and lt: "length pre < ln"
  shows "Eval_removeNOPs_copy T ln (length pre) tmp rw (pre @ i @ rest)
       = Eval_removeNOPs_copy T ln (length pre + length i) (tmp @ (if live T i then i else []))
           (rw(length pre \<mapsto> length tmp)) (pre @ i @ rest)"
  using i
proof (cases rule: instr_ok_cases)
  case (one op)
  with lt show ?thesis
    by (subst Eval_removeNOPs_copy.simps) (auto simp: Length_def nth_append Let_def live_def)
next
  case (three op b0 b1)
  with lt show ?thesis
    by (subst Eval_removeNOPs_copy.simps)
       (auto simp: Length_def nth_append opArg_at_def PutUint16_Uint16 numeral_3_eq_3 Let_def
          live_def)
qed

lemma Eval_nops_walk:
  assumes "\<forall>i\<in>set is. instr_ok T i"
    and "ln = length pre + length (concat is) + length rest"
  shows "Eval_removeNOPs_copy T ln (length pre) tmp rw (pre @ concat is @ rest)
       = Eval_removeNOPs_copy T ln (length pre + length (concat is))
           (tmp @ concat (filter (live T) is)) (rewrite_from T (length pre) (length tmp) is rw)
           (pre @ concat is @ rest)"
  using assms
proof (induction "is" arbitrary: pre tmp rw)
  case Nil
  then show ?case by simp
next
  case (Cons i "is")
  have i: "instr_ok T i" using Cons.prems(1) by simp
  then have "i \<noteq> []" by (simp add: instr_ok_def)
  then have lt: "length pre < ln" using Cons.prems(2) by simp
  let ?tmp = "tmp @ (if live T i then i else [])"
  have "Eval_removeNOPs_copy T ln (length pre) tmp rw (pre @ i @ (concat is @ rest))
      = Eval_removeNOPs_copy T ln (length pre + length i) ?tmp (rw(length pre \<mapsto> length tmp))
          (pre @ i @ (concat is @ rest))"
    by (rule Eval_nops_step [OF i lt])
  also have "\<dots> = Eval_removeNOPs_copy T ln (length (pre @ i)) ?tmp
          (rw(length pre \<mapsto> length tmp)) ((pre @ i) @ concat is @ rest)"
    by simp
  also have "\<dots> = Eval_removeNOPs_copy T ln (length (pre @ i) + length (concat is))
          (?tmp @ concat (filter (live T) is))
          (rewrite_from T (length (pre @ i)) (length ?tmp) is (rw(length pre \<mapsto> length tmp)))
          ((pre @ i) @ concat is @ rest)"
    by (rule Cons.IH) (use Cons.prems in simp_all)
  finally show ?case by (simp add: add.assoc)
qed

lemma Eval_nops_first_loop:
  assumes "\<forall>i\<in>set is. instr_ok T i"
  shows "Eval_removeNOPs_copy T (length (concat is)) 0 [] Map.empty (concat is)
       = Returns (concat (filter (live T) is), rewrite_from T 0 0 is Map.empty)"
proof -
  have "Eval_removeNOPs_copy T (length (concat is)) (length ([] :: byte list)) [] Map.empty
          ([] @ concat is @ [])
      = Eval_removeNOPs_copy T (length (concat is)) (length ([] :: byte list) + length (concat is))
          ([] @ concat (filter (live T) is))
          (rewrite_from T (length ([] :: byte list)) (length ([] :: byte list)) is Map.empty)
          ([] @ concat is @ [])"
    by (rule Eval_nops_walk [OF assms]) simp
  also have "\<dots> = Returns (concat (filter (live T) is), rewrite_from T 0 0 is Map.empty)"
    by (subst Eval_removeNOPs_copy.simps) simp
  finally show ?thesis by simp
qed

lemma Eval_retarget_other:
  assumes "instr_ok T j" "\<not> is_jump T j" "length pre < ln"
  shows "Eval_retarget T M ln (length pre) (pre @ j @ rest)
       = Eval_retarget T M ln (length pre + length j) (pre @ j @ rest)"
  using assms(1)
proof (cases rule: instr_ok_cases)
  case (one op)
  with assms show ?thesis
    by (subst Eval_retarget.simps) (simp add: is_jump_def Length_def nth_append)
next
  case (three op b0 b1)
  with assms show ?thesis
    by (subst Eval_retarget.simps)
       (simp add: is_jump_def Length_def nth_append opArg_at_def numeral_3_eq_3)
qed

lemma Eval_retarget_jump:
  assumes "code_ok T" "instr_ok T j" "is_jump T j" "length pre < ln"
    "(case M (jump_target j) of None \<Rightarrow> 0 | Some d \<Rightarrow> d) = n" "n < 65536"
  shows "Eval_retarget T M ln (length pre) (pre @ j @ rest)
       = Eval_retarget T M ln (length pre + length j) (pre @ ([hd j] @ PutUint16 n) @ rest)"
  using assms(1-3)
proof (cases rule: jump_three)
  case (1 op b0 b1)
  obtain x y where xy: "PutUint16 n = [x, y]" using PutUint16_two by blast
  have st: "stores (pre @ [op, b0, b1] @ rest) [(int (length pre) + 1, x), (int (length pre) + 2, y)]
     = Returns (pre @ [op, x, y] @ rest)"
    by (rule stores_arg)
  have u: "uint16 (int n) = n" using assms(6) by (rule uint16_small)
  have M: "(case M (Uint16 b0 b1) of None \<Rightarrow> 0 | Some d \<Rightarrow> d) = n"
    using assms(5) 1(1) by (simp add: jump_target_def)
  have l: "Length T op = 3" using 1(2) code_ok_Length [OF assms(1)] by auto
  have at: "(pre @ [op, b0, b1] @ rest) ! length pre = op"
    "opArg_at (pre @ [op, b0, b1] @ rest) (length pre) = Returns (Uint16 b0 b1)"
    by (simp_all add: nth_append opArg_at_def)
  show ?thesis
    unfolding 1(1)
    apply (subst Eval_retarget.simps)
    unfolding Let_def at l
    using assms(4) 1(2) st by (simp add: M u xy numeral_3_eq_3)
qed

lemma length_relocate_by:
  assumes "code_ok T" "instr_ok T j"
  shows "length (relocate_by T M j) = length j"
proof (cases "is_jump T j")
  case True
  from assms True show ?thesis
    by (cases rule: jump_three) (auto simp: relocate_by_def PutUint16_def)
next
  case False
  then show ?thesis by (simp add: relocate_by_def)
qed

lemma Eval_retarget_walk:
  assumes T: "code_ok T"
    and ok: "\<forall>j\<in>set js. instr_ok T j"
    and M: "\<forall>j\<in>set js. is_jump T j \<longrightarrow>
              (case M (jump_target j) of None \<Rightarrow> 0 | Some d \<Rightarrow> d) < 65536"
    and ln: "ln = length pre + length (concat js)"
  shows "Eval_retarget T M ln (length pre) (pre @ concat js)
       = Returns (pre @ concat (map (relocate_by T M) js))"
  using ok M ln
proof (induction js arbitrary: pre)
  case Nil
  then show ?case by (subst Eval_retarget.simps) simp
next
  case (Cons j js)
  have j: "instr_ok T j" using Cons.prems(1) by simp
  then have "j \<noteq> []" by (simp add: instr_ok_def)
  then have lt: "length pre < ln" using Cons.prems(3) by simp
  have okjs: "\<forall>j\<in>set js. instr_ok T j" using Cons.prems(1) by simp
  have Mjs: "\<forall>j\<in>set js. is_jump T j \<longrightarrow>
              (case M (jump_target j) of None \<Rightarrow> 0 | Some d \<Rightarrow> d) < 65536"
    using Cons.prems(2) by simp
  show ?case
  proof (cases "is_jump T j")
    case False
    have "Eval_retarget T M ln (length pre) (pre @ j @ concat js)
        = Eval_retarget T M ln (length pre + length j) (pre @ j @ concat js)"
      by (rule Eval_retarget_other [OF j False lt])
    also have "\<dots> = Eval_retarget T M ln (length (pre @ j)) ((pre @ j) @ concat js)"
      by simp
    also have "\<dots> = Returns ((pre @ j) @ concat (map (relocate_by T M) js))"
      by (rule Cons.IH [OF okjs Mjs]) (use Cons.prems(3) in simp)
    finally show ?thesis
      using False relocate_by_def [of T M j] by simp
  next
    case True
    let ?n = "case M (jump_target j) of None \<Rightarrow> 0 | Some d \<Rightarrow> d"
    have n16: "?n < 65536"
      using Cons.prems(2) True by simp
    have rel: "relocate_by T M j = [hd j] @ PutUint16 ?n"
      using True by (simp add: relocate_by_def)
    have len: "length (relocate_by T M j) = length j"
      by (rule length_relocate_by [OF T j])
    have "Eval_retarget T M ln (length pre) (pre @ j @ concat js)
        = Eval_retarget T M ln (length pre + length j) (pre @ ([hd j] @ PutUint16 ?n) @ concat js)"
      by (rule Eval_retarget_jump [where M = M, OF T j True lt refl n16])
    also have "\<dots> = Eval_retarget T M ln (length (pre @ relocate_by T M j))
                        ((pre @ relocate_by T M j) @ concat js)"
      using rel len by simp
    also have "\<dots> = Returns ((pre @ relocate_by T M j) @ concat (map (relocate_by T M) js))"
      by (rule Cons.IH [OF okjs Mjs]) (use Cons.prems(3) len in simp)
    finally show ?thesis by simp
  qed
qed

lemma Eval_removeNOPs_result:
  assumes T: "code_ok T" and ok: "\<forall>i\<in>set is. instr_ok T i"
  shows "Eval_removeNOPs T (concat is)
       = Returns (concat (map (relocate_by T (rewrite_from T 0 0 is Map.empty))
                            (filter (live T) is)))"
proof -
  let ?M = "rewrite_from T 0 0 is Map.empty"
  let ?js = "filter (live T) is"
  have okjs: "\<forall>j\<in>set ?js. instr_ok T j" using ok by simp
  have "(case ?M (jump_target j) of None \<Rightarrow> 0 | Some d \<Rightarrow> d) < 65536" for j
    using new_offset_le [of T "is" "jump_target j"] jump_target_less [of j]
    by (simp add: rewrite_map [OF ok])
  then have M: "\<forall>j\<in>set ?js. is_jump T j \<longrightarrow>
      (case ?M (jump_target j) of None \<Rightarrow> 0 | Some d \<Rightarrow> d) < 65536"
    by blast
  have "Eval_retarget T ?M (length (concat ?js)) (length ([] :: byte list)) ([] @ concat ?js)
      = Returns ([] @ concat (map (relocate_by T ?M) ?js))"
    by (rule Eval_retarget_walk [OF T okjs M]) simp
  then show ?thesis
    by (simp add: Eval_removeNOPs_def Eval_nops_first_loop [OF ok])
qed

lemma Eval_removeNOPs_mapped:
  assumes T: "code_ok T" and ok: "\<forall>i\<in>set is. instr_ok T i"
    and mapped: "\<forall>j\<in>set is. is_jump T j \<longrightarrow> jump_target j \<in> set (offsets 0 is)"
  shows "Eval_removeNOPs T (concat is) = Returns (concat (map (relocate T is) (filter (live T) is)))"
proof -
  have "relocate_by T (rewrite_from T 0 0 is Map.empty) j = relocate T is j"
    if "j \<in> set (filter (live T) is)" for j
    using that mapped by (simp add: relocate_by_def relocate_def rewrite_map [OF ok])
  then have "map (relocate_by T (rewrite_from T 0 0 is Map.empty)) (filter (live T) is)
      = map (relocate T is) (filter (live T) is)"
    by (simp only: map_eq_conv) blast
  then show ?thesis
    by (simp only: Eval_removeNOPs_result [OF T ok])
qed

text \<open>
  C6. Let the first walk of \<open>removeNOPs\<close> over a well-formed program leave the map
  \<open>rewrite\<close>, and let the program have a jump whose argument has no entry in that
  map. The machine's \<open>removeNOPs\<close> stops at it and does not install the rebuilt
  program: the bytecode is what it was before the pass. The engine's \<open>removeNOPs\<close>
  builds the same map in its first loop, reads 0 for the missing entry, and installs
  the rebuilt program, in which that jump goes to offset 0.
\<close>

theorem removeNOPs_missing_target:
  assumes T: "code_ok T" and ok: "\<forall>i\<in>set is. instr_ok T i"
    and walk: "WalkBytecode T (nops_visitor T) (length (concat is)) 0 (concat is, [], Map.empty)
                 = Returns ((bc, tmp, rewrite), err)"
    and j: "j \<in> set is" "is_jump T j" "rewrite (jump_target j) = None"
  shows "VM_removeNOPs T (concat is) = Returns (concat is)
       \<and> Eval_removeNOPs_copy T (length (concat is)) 0 [] Map.empty (concat is)
           = Returns (tmp, rewrite)
       \<and> Eval_removeNOPs T (concat is)
           = Returns (concat (map (relocate_by T rewrite) (filter (live T) is)))
       \<and> j \<in> set (filter (live T) is)
       \<and> relocate_by T rewrite j = [hd j] @ PutUint16 0"
proof -
  from walk have rw: "rewrite = rewrite_from T 0 0 is Map.empty"
    and tmp: "tmp = concat (filter (live T) is)"
    by (simp_all add: nops_first_walk [OF ok])
  with j(3) have "jump_target j \<notin> set (offsets 0 is)"
    by (simp add: rewrite_map [OF ok] split: if_splits)
  with j(1,2) have "\<not> (\<forall>j\<in>set is. is_jump T j \<longrightarrow> jump_target j \<in> set (offsets 0 is))"
    by blast
  then have 1: "VM_removeNOPs T (concat is) = Returns (concat is)"
    by (auto simp: removeNOPs_cases [OF T ok])
  have 2: "Eval_removeNOPs_copy T (length (concat is)) 0 [] Map.empty (concat is)
      = Returns (tmp, rewrite)"
    by (simp add: rw tmp Eval_nops_first_loop [OF ok])
  have 3: "Eval_removeNOPs T (concat is)
      = Returns (concat (map (relocate_by T rewrite) (filter (live T) is)))"
    by (simp only: rw Eval_removeNOPs_result [OF T ok])
  have 4: "j \<in> set (filter (live T) is)"
    using j(1,2) code_ok_neq [OF T] by (auto simp: is_jump_def live_def)
  have 5: "relocate_by T rewrite j = [hd j] @ PutUint16 0"
    using j(2,3) by (simp add: relocate_by_def)
  from 1 2 3 4 5 show ?thesis by blast
qed

theorem removeNOPs_missing_target_witness:
  "rewrite_from sample_code 0 0 [[2], [1, 0, 1], [12, 0, 8], [13]] Map.empty (jump_target [12, 0, 8])
     = None
   \<and> VM_removeNOPs sample_code (concat [[2], [1, 0, 1], [12, 0, 8], [13]])
     = Returns [2, 1, 0, 1, 12, 0, 8, 13]
   \<and> Eval_removeNOPs sample_code (concat [[2], [1, 0, 1], [12, 0, 8], [13]])
     = Returns [1, 0, 1, 12, 0, 0, 13]"
proof -
  have T: "code_ok sample_code"
    by (simp add: code_ok_def sample_code_def named_opcodes_def)
  have ok: "\<forall>i\<in>set [[2], [1, 0, 1], [12, 0, 8], [13 :: byte]]. instr_ok sample_code i"
    by (simp add: instr_ok_def Length_def sample_code_def)
  have j: "rewrite_from sample_code 0 0 [[2], [1, 0, 1], [12, 0, 8], [13]] Map.empty
             (jump_target [12, 0, 8]) = None"
    by (simp add: jump_target_def Uint16_def)
  have "is_jump sample_code [12, 0, 8]"
    by (simp add: is_jump_def sample_code_def)
  from removeNOPs_missing_target [OF T ok nops_first_walk [OF ok] _ this j] j show ?thesis
    by (simp add: relocate_by_def live_def is_jump_def jump_target_def Uint16_def PutUint16_def
          sample_code_def)
qed

text \<open>
  C5. Take a well-formed program in which every jump targets an offset the walker
  visits, so that the pass runs to its end. Then \<open>removeNOPs\<close>, the machine's and the
  engine's, leaves the instructions other than \<open>OpNop\<close>, in their order, and no
  \<open>OpNop\<close> among them. The map of the
  first walk has an entry for every visited offset, that of an \<open>OpNop\<close> too: the
  number of bytes of the staying instructions in front of it. Every jump keeps its
  opcode and carries the entry of its old target. For a target that was an \<open>OpNop\<close>
  (any of the run \<open>ns\<close> of them in front of the staying instruction \<open>l\<close>, or \<open>l\<close>
  itself) this entry is the offset at which \<open>l\<close> stands in the new bytecode.
\<close>

theorem removeNOPs_retargets:
  assumes T: "code_ok T" and ok: "\<forall>i\<in>set is. instr_ok T i"
    and mapped: "\<forall>j\<in>set is. is_jump T j \<longrightarrow> jump_target j \<in> set (offsets 0 is)"
  shows "VM_removeNOPs T (concat is) = Returns (concat (map (relocate T is) (filter (live T) is)))
       \<and> Eval_removeNOPs T (concat is) = Returns (concat (map (relocate T is) (filter (live T) is)))
       \<and> (\<forall>i\<in>set (map (relocate T is) (filter (live T) is)). instr_ok T i \<and> hd i \<noteq> OpNop T)
       \<and> (\<exists>tmp rewrite.
            WalkBytecode T (nops_visitor T) (length (concat is)) 0 (concat is, [], Map.empty)
              = Returns ((concat is, tmp, rewrite), None)
          \<and> (\<forall>t. rewrite t
                 = (if t \<in> set (offsets 0 is) then Some (new_offset T is t) else None)))
       \<and> (\<forall>j\<in>set is. is_jump T j \<longrightarrow>
              hd (relocate T is j) = hd j
            \<and> jump_target (relocate T is j) = new_offset T is (jump_target j))
       \<and> (\<forall>is1 ns l is2 k.
              is = is1 @ ns @ l # is2 \<and> (\<forall>n\<in>set ns. \<not> live T n) \<and> live T l \<and> k \<le> length ns
              \<longrightarrow> concat (map (relocate T is) (filter (live T) is))
                    = concat (map (relocate T is) (filter (live T) is1)) @ relocate T is l
                        @ concat (map (relocate T is) (filter (live T) is2))
                \<and> new_offset T is (length (concat is1) + k)
                    = length (concat (map (relocate T is) (filter (live T) is1))))"
proof (intro conjI)
  show "VM_removeNOPs T (concat is) = Returns (concat (map (relocate T is) (filter (live T) is)))"
  proof (cases "\<forall>i\<in>set is. live T i")
    case False
    with mapped show ?thesis by (auto simp: removeNOPs_cases [OF T ok])
  next
    case True
    then have "filter (live T) is = is" by simp
    moreover have "map (relocate T is) is = is"
      using relocate_all_live [OF T ok True] ok mapped by (simp add: map_idI)
    ultimately show ?thesis using True by (simp add: removeNOPs_cases [OF T ok])
  qed
next
  show "Eval_removeNOPs T (concat is) = Returns (concat (map (relocate T is) (filter (live T) is)))"
    by (rule Eval_removeNOPs_mapped [OF T ok mapped])
next
  show "\<forall>i\<in>set (map (relocate T is) (filter (live T) is)). instr_ok T i \<and> hd i \<noteq> OpNop T"
  proof
    fix i assume "i \<in> set (map (relocate T is) (filter (live T) is))"
    then obtain j where j: "j \<in> set is" "live T j" "i = relocate T is j" by auto
    then have okj: "instr_ok T j" using ok by simp
    show "instr_ok T i \<and> hd i \<noteq> OpNop T"
    proof (cases "is_jump T j")
      case True
      from relocate_jump [OF T okj True, of "is"] j show ?thesis by (simp add: live_def)
    next
      case False
      with j okj show ?thesis by (simp add: relocate_def live_def)
    qed
  qed
next
  show "\<exists>tmp rewrite.
            WalkBytecode T (nops_visitor T) (length (concat is)) 0 (concat is, [], Map.empty)
              = Returns ((concat is, tmp, rewrite), None)
          \<and> (\<forall>t. rewrite t
                 = (if t \<in> set (offsets 0 is) then Some (new_offset T is t) else None))"
    using nops_first_walk [OF ok] rewrite_map [OF ok] by blast
next
  show "\<forall>j\<in>set is. is_jump T j \<longrightarrow>
              hd (relocate T is j) = hd j
            \<and> jump_target (relocate T is j) = new_offset T is (jump_target j)"
    using relocate_jump(1,2) [OF T] ok by blast
next
  show "\<forall>is1 ns l is2 k.
              is = is1 @ ns @ l # is2 \<and> (\<forall>n\<in>set ns. \<not> live T n) \<and> live T l \<and> k \<le> length ns
              \<longrightarrow> concat (map (relocate T is) (filter (live T) is))
                    = concat (map (relocate T is) (filter (live T) is1)) @ relocate T is l
                        @ concat (map (relocate T is) (filter (live T) is2))
                \<and> new_offset T is (length (concat is1) + k)
                    = length (concat (map (relocate T is) (filter (live T) is1)))"
  proof (intro allI impI, elim conjE)
    fix is1 ns l is2 k
    assume split: "is = is1 @ ns @ l # is2" and ns: "\<forall>n\<in>set ns. \<not> live T n"
      and l: "live T l" and k: "k \<le> length ns"
    have ok1: "\<forall>i\<in>set is1. instr_ok T i" and okn: "\<forall>n\<in>set ns. instr_ok T n"
      and okl: "instr_ok T l"
      using ok split by simp_all
    have ne1: "\<forall>i\<in>set is1. i \<noteq> []" using ok1 by (auto simp: instr_ok_def)
    have "\<forall>n\<in>set ns. \<not> live T n \<and> length n = 1"
      using ns okn code_ok_Length(4) [OF T] by (auto simp: instr_ok_def live_def)
    moreover have "l \<noteq> []" using okl by (simp add: instr_ok_def)
    ultimately have z: "new_offset T (ns @ l # is2) k = 0"
      using k by (rule new_offset_nops)
    have len: "length (concat (map (relocate T is) xs)) = length (concat xs)"
      if "\<forall>x\<in>set xs. instr_ok T x" for xs
      using that by (induction xs) (simp_all add: length_relocate [OF T])
    have "new_offset T is (length (concat is1) + k) = length (concat (filter (live T) is1))"
      unfolding split using new_offset_prefix [OF ne1, of T "ns @ l # is2" k] z by simp
    also have "\<dots> = length (concat (map (relocate T is) (filter (live T) is1)))"
      using len [of "filter (live T) is1"] ok1 by simp
    finally have a: "new_offset T is (length (concat is1) + k)
        = length (concat (map (relocate T is) (filter (live T) is1)))" .
    have "filter (live T) ns = []" using ns by simp
    then have b: "filter (live T) is = filter (live T) is1 @ l # filter (live T) is2"
      using split l by simp
    show "concat (map (relocate T is) (filter (live T) is))
                    = concat (map (relocate T is) (filter (live T) is1)) @ relocate T is l
                        @ concat (map (relocate T is) (filter (live T) is2))
                \<and> new_offset T is (length (concat is1) + k)
                    = length (concat (map (relocate T is) (filter (live T) is1)))"
      using a by (simp add: b)
  qed
qed

theorem removeNOPs_retargets_witness:
  "VM_removeNOPs sample_code (concat [[1, 0, 1], [12, 0, 7], [2], [2], [13]])
     = Returns [1, 0, 1, 12, 0, 6, 13]
   \<and> Eval_removeNOPs sample_code (concat [[1, 0, 1], [12, 0, 7], [2], [2], [13]])
     = Returns [1, 0, 1, 12, 0, 6, 13]
   \<and> new_offset sample_code [[1, 0, 1], [12, 0, 7], [2], [2], [13]] 7 = 6"
proof -
  have T: "code_ok sample_code"
    by (simp add: code_ok_def sample_code_def named_opcodes_def)
  have ok: "\<forall>i\<in>set [[1, 0, 1], [12, 0, 7], [2], [2], [13 :: byte]]. instr_ok sample_code i"
    by (simp add: instr_ok_def Length_def sample_code_def)
  have mapped: "\<forall>j\<in>set [[1, 0, 1], [12, 0, 7], [2], [2], [13 :: byte]].
      is_jump sample_code j \<longrightarrow> jump_target j \<in> set (offsets 0 [[1, 0, 1], [12, 0, 7], [2], [2], [13]])"
    by (simp add: is_jump_def sample_code_def jump_target_def Uint16_def)
  from removeNOPs_retargets [OF T ok mapped] show ?thesis
    by (simp add: relocate_def live_def is_jump_def jump_target_def Uint16_def PutUint16_def
          sample_code_def)
qed

section \<open>Jump simplification\<close>

lemma jumps_visitor_keep:
  assumes "\<not> (hd i = OpJumpIfFalse T \<and> (prevOp = OpTrue T \<or> prevOp = OpFalse T))"
  shows "jumps_visitor T off (hd i) arg (bc, prevOp, ch)
       = Returns ((bc, hd i, ch), True, None)"
  using assms by (auto simp: jumps_visitor_def)

lemma jumps_walk:
  assumes "\<forall>i\<in>set is. instr_ok T i" and "branch_free T prevOp is"
    and "ln = length pre + length (concat is) + length rest"
  shows "WalkBytecode T (jumps_visitor T) ln (length pre) (pre @ concat is @ rest, prevOp, ch)
       = WalkBytecode T (jumps_visitor T) ln (length pre + length (concat is))
           (pre @ concat is @ rest, last_op prevOp is, ch)"
  using assms
proof (induction "is" arbitrary: pre prevOp)
  case Nil
  then show ?case by simp
next
  case (Cons i "is")
  have i: "instr_ok T i" using Cons.prems(1) by simp
  then have "i \<noteq> []" by (simp add: instr_ok_def)
  then have lt: "length pre < ln" using Cons.prems(3) by simp
  have nb: "\<not> (hd i = OpJumpIfFalse T \<and> (prevOp = OpTrue T \<or> prevOp = OpFalse T))"
    and bf: "branch_free T (hd i) is"
    using Cons.prems(2) by simp_all
  have okis: "\<forall>i\<in>set is. instr_ok T i" using Cons.prems(1) by simp
  have "WalkBytecode T (jumps_visitor T) ln (length pre) (pre @ i @ (concat is @ rest), prevOp, ch)
      = WalkBytecode T (jumps_visitor T) ln (length pre + length i)
          (pre @ i @ (concat is @ rest), hd i, ch)"
    by (rule Walk_keep [OF i lt]) (rule jumps_visitor_keep [OF nb])
  also have "\<dots> = WalkBytecode T (jumps_visitor T) ln (length (pre @ i))
          ((pre @ i) @ concat is @ rest, hd i, ch)"
    by simp
  also have "\<dots> = WalkBytecode T (jumps_visitor T) ln (length (pre @ i) + length (concat is))
          ((pre @ i) @ concat is @ rest, last_op (hd i) is, ch)"
    by (rule Cons.IH [OF okis bf]) (use Cons.prems(3) in simp)
  finally show ?case by (simp add: add.assoc)
qed

lemma length_nop_range [simp]: "length (nop_range T bc p t) = length bc"
  by (simp add: nop_range_def)

lemma nth_nop_range:
  "k < length bc \<Longrightarrow> nop_range T bc p t ! k = (if p \<le> k \<and> k < t then OpNop T else bc ! k)"
  by (simp add: nop_range_def)

lemma nop_range_empty: "t \<le> p \<Longrightarrow> nop_range T bc p t = bc"
  by (rule nth_equalityI) (auto simp: nth_nop_range)

lemma nop_fill_nat:
  "nop_fill T bc (int p) (int t)
     = (if p < t \<and> length bc < t then Panic else Returns (nop_range T bc p t))"
proof (induction "t - p" arbitrary: p bc)
  case 0
  then have "t \<le> p" by simp
  then show ?case
    by (subst nop_fill.simps) (simp add: nop_range_empty)
next
  case (Suc n)
  then have lt: "p < t" and n: "n = t - (p + 1)" by simp_all
  show ?case
  proof (cases "p < length bc")
    case False
    with lt show ?thesis
      by (subst nop_fill.simps) (simp add: store_nat)
  next
    case True
    have ih: "nop_fill T (bc[p := OpNop T]) (int (p + 1)) (int t)
        = (if p + 1 < t \<and> length (bc[p := OpNop T]) < t then Panic
           else Returns (nop_range T (bc[p := OpNop T]) (p + 1) t))"
      by (rule Suc.hyps(1) [OF n])
    have eq: "nop_range T (bc[p := OpNop T]) (p + 1) t = nop_range T bc p t"
      using lt by (intro nth_equalityI) (auto simp: nth_nop_range nth_list_update)
    have "nop_fill T bc (int p) (int t) = nop_fill T (bc[p := OpNop T]) (int (p + 1)) (int t)"
      using lt True by (subst nop_fill.simps) (simp add: store_nat add.commute)
    with ih eq True lt show ?thesis by auto
  qed
qed


lemma last_op_snoc [simp]: "last_op prevOp (is @ [i]) = hd i"
  by (induction "is" arbitrary: prevOp) simp_all

lemma branch_free_snoc:
  "branch_free T prevOp (is @ [i])
     \<longleftrightarrow> branch_free T prevOp is
       \<and> \<not> (hd i = OpJumpIfFalse T
              \<and> (last_op prevOp is = OpTrue T \<or> last_op prevOp is = OpFalse T))"
  by (induction "is" arbitrary: prevOp) auto

lemma stores_four:
  "stores (pre @ [a, b, c, d] @ rest)
     [(int (length pre + 1) - 1, x), (int (length pre + 1), x),
      (int (length pre + 1) + 1, x), (int (length pre + 1) + 2, x)]
     = Returns (pre @ [x, x, x, x] @ rest)"
proof -
  have 1: "int (length pre + 1) - 1 = int (length pre)"
    "int (length pre + 1) + 1 = int (length pre + 2)"
    "int (length pre + 1) + 2 = int (length pre + 3)"
    by simp_all
  show ?thesis
    unfolding 1 stores.simps store_nat by (simp add: list_update_append)
qed

lemma jumps_walk_const:
  assumes T: "code_ok T" and ok: "\<forall>i\<in>set is. instr_ok T i"
    and bf: "branch_free T (OpNop T) is"
    and c: "c = OpTrue T \<or> c = OpFalse T"
    and ln: "ln = length (concat is) + 1 + length rest"
  shows "WalkBytecode T (jumps_visitor T) ln 0 (concat is @ [c] @ rest, OpNop T, False)
       = WalkBytecode T (jumps_visitor T) ln (length (concat is) + 1)
           (concat is @ [c] @ rest, c, False)"
proof -
  have okc: "\<forall>i\<in>set (is @ [[c]]). instr_ok T i"
    using ok c code_ok_Length [OF T] by (auto simp: instr_ok_def)
  have bfc: "branch_free T (OpNop T) (is @ [[c]])"
    using bf c code_ok_neq [OF T] by (auto simp: branch_free_snoc)
  have "WalkBytecode T (jumps_visitor T) ln (length ([] :: byte list))
          ([] @ concat (is @ [[c]]) @ rest, OpNop T, False)
      = WalkBytecode T (jumps_visitor T) ln (length ([] :: byte list) + length (concat (is @ [[c]])))
          ([] @ concat (is @ [[c]]) @ rest, last_op (OpNop T) (is @ [[c]]), False)"
    by (rule jumps_walk [OF okc bfc]) (use ln in simp)
  then show ?thesis by simp
qed

lemma jif_ok: "code_ok T \<Longrightarrow> instr_ok T [OpJumpIfFalse T, b0, b1]"
  by (simp add: instr_ok_def code_ok_Length)

lemma instr_arg_jif: "code_ok T \<Longrightarrow> instr_arg T [OpJumpIfFalse T, b0, b1] = Some (Uint16 b0 b1)"
  by (simp add: instr_arg_def code_ok_has_arg)

lemma optimizeJumps_True:
  assumes T: "code_ok T" and ok: "\<forall>i\<in>set is. instr_ok T i"
    and bf: "branch_free T (OpNop T) is"
  shows "VM_optimizeJumps T (concat is @ [OpTrue T] @ [OpJumpIfFalse T, b0, b1] @ rest)
       = Returns (concat is @ [OpNop T, OpNop T, OpNop T, OpNop T] @ rest, True)"
proof -
  let ?bc = "concat is @ [OpTrue T] @ [OpJumpIfFalse T, b0, b1] @ rest"
  let ?pre = "concat is @ [OpTrue T]"
  let ?j = "[OpJumpIfFalse T, b0, b1]"
  have 1: "WalkBytecode T (jumps_visitor T) (length ?bc) 0
             (concat is @ [OpTrue T] @ (?j @ rest), OpNop T, False)
         = WalkBytecode T (jumps_visitor T) (length ?bc) (length (concat is) + 1)
             (concat is @ [OpTrue T] @ (?j @ rest), OpTrue T, False)"
    by (rule jumps_walk_const [OF T ok bf]) simp_all
  have v: "jumps_visitor T (length ?pre) (hd ?j) (instr_arg T ?j) (?pre @ ?j @ rest, OpTrue T, False)
      = Returns ((concat is @ [OpNop T, OpNop T, OpNop T, OpNop T] @ rest, OpTrue T, True), False, None)"
    using stores_four [of "concat is" "OpTrue T" "OpJumpIfFalse T" b0 b1 rest "OpNop T"]
    by (simp add: jumps_visitor_def)
  have 2: "WalkBytecode T (jumps_visitor T) (length ?bc) (length ?pre) (?pre @ ?j @ rest, OpTrue T, False)
      = Returns ((concat is @ [OpNop T, OpNop T, OpNop T, OpNop T] @ rest, OpTrue T, True), None)"
    by (rule Walk_stop [where cb = "jumps_visitor T", OF jif_ok [OF T] _ v]) simp
  from 1 2 show ?thesis by (simp add: VM_optimizeJumps_def)
qed

lemma optimizeJumps_False:
  assumes T: "code_ok T" and ok: "\<forall>i\<in>set is. instr_ok T i"
    and bf: "branch_free T (OpNop T) is"
    and bc: "bc = concat is @ [OpFalse T] @ [OpJumpIfFalse T, b0, b1] @ rest"
  shows "VM_optimizeJumps T bc
       = (if length bc < Uint16 b0 b1 then Panic
          else Returns (nop_range T bc (length (concat is)) (Uint16 b0 b1), True))"
proof -
  let ?pre = "concat is @ [OpFalse T]"
  let ?j = "[OpJumpIfFalse T, b0, b1]"
  let ?t = "Uint16 b0 b1"
  have ft: "OpFalse T \<noteq> OpTrue T" using code_ok_neq [OF T] by simp
  have 1: "WalkBytecode T (jumps_visitor T) (length bc) 0
             (concat is @ [OpFalse T] @ (?j @ rest), OpNop T, False)
         = WalkBytecode T (jumps_visitor T) (length bc) (length (concat is) + 1)
             (concat is @ [OpFalse T] @ (?j @ rest), OpFalse T, False)"
    by (rule jumps_walk_const [OF T ok bf]) (simp_all add: bc)
  have fill: "nop_fill T bc (int (length ?pre) - 1) (int ?t)
      = (if length (concat is) < ?t \<and> length bc < ?t then Panic
         else Returns (nop_range T bc (length (concat is)) ?t))"
    using nop_fill_nat [of T bc "length (concat is)" ?t] by simp
  have lenbc: "length (concat is) < length bc" by (simp add: bc)
  show ?thesis
  proof (cases "length bc < ?t")
    case True
    with fill lenbc have f: "nop_fill T bc (int (length ?pre) - 1) (int ?t) = Panic" by simp
    have v: "jumps_visitor T (length ?pre) (hd ?j) (instr_arg T ?j) (?pre @ ?j @ rest, OpFalse T, False)
        = Panic"
      using f ft bc by (simp add: jumps_visitor_def instr_arg_jif [OF T])
    have "WalkBytecode T (jumps_visitor T) (length bc) (length ?pre) (?pre @ ?j @ rest, OpFalse T, False)
        = Panic"
      by (rule Walk_panic [where cb = "jumps_visitor T", OF jif_ok [OF T] _ v]) (simp add: bc)
    with 1 True show ?thesis by (simp add: VM_optimizeJumps_def bc)
  next
    case False
    with fill have f: "nop_fill T bc (int (length ?pre) - 1) (int ?t)
        = Returns (nop_range T bc (length (concat is)) ?t)" by simp
    have v: "jumps_visitor T (length ?pre) (hd ?j) (instr_arg T ?j) (?pre @ ?j @ rest, OpFalse T, False)
        = Returns ((nop_range T bc (length (concat is)) ?t, OpFalse T, True), False, None)"
      using f ft bc by (simp add: jumps_visitor_def instr_arg_jif [OF T])
    have "WalkBytecode T (jumps_visitor T) (length bc) (length ?pre) (?pre @ ?j @ rest, OpFalse T, False)
        = Returns ((nop_range T bc (length (concat is)) ?t, OpFalse T, True), None)"
      by (rule Walk_stop [where cb = "jumps_visitor T", OF jif_ok [OF T] _ v]) (simp add: bc)
    with 1 False show ?thesis by (simp add: VM_optimizeJumps_def bc)
  qed
qed

lemma optimizeJumps_none:
  assumes ok: "\<forall>i\<in>set is. instr_ok T i" and bf: "branch_free T (OpNop T) is"
  shows "VM_optimizeJumps T (concat is) = Returns (concat is, False)"
proof -
  have "WalkBytecode T (jumps_visitor T) (length (concat is)) (length ([] :: byte list))
          ([] @ concat is @ [], OpNop T, False)
      = WalkBytecode T (jumps_visitor T) (length (concat is))
          (length ([] :: byte list) + length (concat is))
          ([] @ concat is @ [], last_op (OpNop T) is, False)"
    by (rule jumps_walk [OF ok bf]) simp
  then show ?thesis by (simp add: VM_optimizeJumps_def Walk_end)
qed


lemma branch_first:
  assumes "\<not> branch_free T prevOp is"
  shows "(\<exists>j is2. is = j # is2 \<and> hd j = OpJumpIfFalse T
            \<and> (prevOp = OpTrue T \<or> prevOp = OpFalse T))
       \<or> (\<exists>is1 c j is2. is = is1 @ c # j # is2 \<and> branch_free T prevOp (is1 @ [c])
            \<and> (hd c = OpTrue T \<or> hd c = OpFalse T) \<and> hd j = OpJumpIfFalse T)"
  using assms
proof (induction "is" arbitrary: prevOp)
  case Nil
  then show ?case by simp
next
  case (Cons i "is")
  show ?case
  proof (cases "hd i = OpJumpIfFalse T \<and> (prevOp = OpTrue T \<or> prevOp = OpFalse T)")
    case True
    then show ?thesis by simp
  next
    case False
    with Cons.prems have "\<not> branch_free T (hd i) is" by simp
    from Cons.IH [OF this] consider
      (a) j is2 where "is = j # is2" "hd j = OpJumpIfFalse T"
          "hd i = OpTrue T \<or> hd i = OpFalse T"
    | (b) is1 c j is2 where "is = is1 @ c # j # is2" "branch_free T (hd i) (is1 @ [c])"
          "hd c = OpTrue T \<or> hd c = OpFalse T" "hd j = OpJumpIfFalse T"
      by blast
    then show ?thesis
    proof cases
      case a
      with False have "i # is = [] @ i # j # is2 \<and> branch_free T prevOp ([] @ [i])
            \<and> (hd i = OpTrue T \<or> hd i = OpFalse T) \<and> hd j = OpJumpIfFalse T"
        by simp
      then show ?thesis by blast
    next
      case b
      with False have "i # is = (i # is1) @ c # j # is2 \<and> branch_free T prevOp ((i # is1) @ [c])
            \<and> (hd c = OpTrue T \<or> hd c = OpFalse T) \<and> hd j = OpJumpIfFalse T"
        by simp
      then show ?thesis by blast
    qed
  qed
qed

lemma optimizeJumps_changed:
  assumes T: "code_ok T" and ok: "\<forall>i\<in>set js. instr_ok T i"
    and nbf: "\<not> branch_free T (OpNop T) js"
  shows "VM_optimizeJumps T (concat js) \<noteq> Returns (bc', False)"
proof -
  from branch_first [OF nbf] code_ok_neq [OF T]
  obtain is1 c j is2 where split: "js = is1 @ c # j # is2"
    and bf: "branch_free T (OpNop T) (is1 @ [c])"
    and c: "hd c = OpTrue T \<or> hd c = OpFalse T" and j: "hd j = OpJumpIfFalse T"
    by metis
  have ok1: "\<forall>i\<in>set is1. instr_ok T i" and okc: "instr_ok T c" and okj: "instr_ok T j"
    using ok split by simp_all
  have bf1: "branch_free T (OpNop T) is1" using bf by (simp add: branch_free_snoc)
  from okc c code_ok_has_arg [OF T] have c1: "c = [hd c]"
    by (cases rule: instr_ok_cases) auto
  from okj j code_ok_has_arg [OF T] obtain b0 b1 where j3: "j = [OpJumpIfFalse T, b0, b1]"
    by (cases rule: instr_ok_cases) auto
  from c show ?thesis
  proof
    assume "hd c = OpTrue T"
    with c1 j3 split have "concat js = concat is1 @ [OpTrue T] @ [OpJumpIfFalse T, b0, b1] @ concat is2"
      by (metis append_Cons append_Nil concat.simps(2) concat_append)
    with optimizeJumps_True [OF T ok1 bf1, of b0 b1 "concat is2"] show ?thesis by simp
  next
    assume "hd c = OpFalse T"
    with c1 j3 split have "concat js = concat is1 @ [OpFalse T] @ [OpJumpIfFalse T, b0, b1] @ concat is2"
      by (metis append_Cons append_Nil concat.simps(2) concat_append)
    with optimizeJumps_False [OF T ok1 bf1 this] show ?thesis by simp
  qed
qed

lemma Eval_jumps_step:
  assumes i: "instr_ok T i" and lt: "length pre < ln"
    and nb: "\<not> (hd i = OpJumpIfFalse T \<and> (prevOp = OpTrue T \<or> prevOp = OpFalse T))"
  shows "Eval_optimizeJumps_loop T ln (length pre) prevOp (pre @ i @ rest)
       = Eval_optimizeJumps_loop T ln (length pre + length i) (hd i) (pre @ i @ rest)"
  using i
proof (cases rule: instr_ok_cases)
  case (one op)
  with lt nb show ?thesis
    by (subst Eval_optimizeJumps_loop.simps) (auto simp: Length_def nth_append Let_def)
next
  case (three op b0 b1)
  with lt nb show ?thesis
    by (subst Eval_optimizeJumps_loop.simps)
       (auto simp: Length_def nth_append numeral_3_eq_3 Let_def)
qed

lemma Eval_jumps_walk:
  assumes "\<forall>i\<in>set is. instr_ok T i" and "branch_free T prevOp is"
    and "ln = length pre + length (concat is) + length rest"
  shows "Eval_optimizeJumps_loop T ln (length pre) prevOp (pre @ concat is @ rest)
       = Eval_optimizeJumps_loop T ln (length pre + length (concat is)) (last_op prevOp is)
           (pre @ concat is @ rest)"
  using assms
proof (induction "is" arbitrary: pre prevOp)
  case Nil
  then show ?case by simp
next
  case (Cons i "is")
  have i: "instr_ok T i" using Cons.prems(1) by simp
  then have "i \<noteq> []" by (simp add: instr_ok_def)
  then have lt: "length pre < ln" using Cons.prems(3) by simp
  have nb: "\<not> (hd i = OpJumpIfFalse T \<and> (prevOp = OpTrue T \<or> prevOp = OpFalse T))"
    and bf: "branch_free T (hd i) is"
    using Cons.prems(2) by simp_all
  have okis: "\<forall>i\<in>set is. instr_ok T i" using Cons.prems(1) by simp
  have "Eval_optimizeJumps_loop T ln (length pre) prevOp (pre @ i @ (concat is @ rest))
      = Eval_optimizeJumps_loop T ln (length pre + length i) (hd i) (pre @ i @ (concat is @ rest))"
    by (rule Eval_jumps_step [OF i lt nb])
  also have "\<dots> = Eval_optimizeJumps_loop T ln (length (pre @ i)) (hd i)
          ((pre @ i) @ concat is @ rest)"
    by simp
  also have "\<dots> = Eval_optimizeJumps_loop T ln (length (pre @ i) + length (concat is))
          (last_op (hd i) is) ((pre @ i) @ concat is @ rest)"
    by (rule Cons.IH [OF okis bf]) (use Cons.prems(3) in simp)
  finally show ?case by (simp add: add.assoc)
qed

lemma Eval_jumps_walk_const:
  assumes T: "code_ok T" and ok: "\<forall>i\<in>set is. instr_ok T i"
    and bf: "branch_free T (OpNop T) is"
    and c: "c = OpTrue T \<or> c = OpFalse T"
    and ln: "ln = length (concat is) + 1 + length rest"
  shows "Eval_optimizeJumps_loop T ln 0 (OpNop T) (concat is @ [c] @ rest)
       = Eval_optimizeJumps_loop T ln (length (concat is) + 1) c (concat is @ [c] @ rest)"
proof -
  have okc: "\<forall>i\<in>set (is @ [[c]]). instr_ok T i"
    using ok c code_ok_Length [OF T] by (auto simp: instr_ok_def)
  have bfc: "branch_free T (OpNop T) (is @ [[c]])"
    using bf c code_ok_neq [OF T] by (auto simp: branch_free_snoc)
  have "Eval_optimizeJumps_loop T ln (length ([] :: byte list)) (OpNop T)
          ([] @ concat (is @ [[c]]) @ rest)
      = Eval_optimizeJumps_loop T ln (length ([] :: byte list) + length (concat (is @ [[c]])))
          (last_op (OpNop T) (is @ [[c]])) ([] @ concat (is @ [[c]]) @ rest)"
    by (rule Eval_jumps_walk [OF okc bfc]) (use ln in simp)
  then show ?thesis by simp
qed

lemma stores_two:
  "stores (pre @ [a, b] @ rest) [(int (length pre + 1) - 1, x), (int (length pre + 1), y)]
     = Returns (pre @ [x, y] @ rest)"
proof -
  have 1: "int (length pre + 1) - 1 = int (length pre)" by simp
  show ?thesis
    unfolding 1 stores.simps store_nat by (simp add: list_update_append)
qed

lemma Eval_optimizeJumps_True:
  assumes T: "code_ok T" and ok: "\<forall>i\<in>set is. instr_ok T i"
    and bf: "branch_free T (OpNop T) is"
  shows "Eval_optimizeJumps T (concat is @ [OpTrue T] @ [OpJumpIfFalse T, b0, b1] @ rest)
       = Returns (concat is @ [OpNop T, OpNop T, OpNop T, OpNop T] @ rest, True)"
proof -
  let ?bc = "concat is @ [OpTrue T] @ [OpJumpIfFalse T, b0, b1] @ rest"
  have 1: "Eval_optimizeJumps_loop T (length ?bc) 0 (OpNop T)
             (concat is @ [OpTrue T] @ ([OpJumpIfFalse T, b0, b1] @ rest))
         = Eval_optimizeJumps_loop T (length ?bc) (length (concat is) + 1) (OpTrue T)
             (concat is @ [OpTrue T] @ ([OpJumpIfFalse T, b0, b1] @ rest))"
    by (rule Eval_jumps_walk_const [OF T ok bf]) simp_all
  have at: "?bc ! (length (concat is) + 1) = OpJumpIfFalse T"
    by (simp add: nth_append)
  have 2: "Eval_optimizeJumps_loop T (length ?bc) (length (concat is) + 1) (OpTrue T) ?bc
      = Returns (concat is @ [OpNop T, OpNop T, OpNop T, OpNop T] @ rest, True)"
    apply (subst Eval_optimizeJumps_loop.simps)
    unfolding Let_def at
    using stores_four [of "concat is" "OpTrue T" "OpJumpIfFalse T" b0 b1 rest "OpNop T"]
    by simp
  from 1 2 show ?thesis by (simp add: Eval_optimizeJumps_def)
qed

lemma Eval_optimizeJumps_False:
  assumes T: "code_ok T" and ok: "\<forall>i\<in>set is. instr_ok T i"
    and bf: "branch_free T (OpNop T) is"
  shows "Eval_optimizeJumps T (concat is @ [OpFalse T] @ [OpJumpIfFalse T, b0, b1] @ rest)
       = Returns (concat is @ [OpNop T] @ [OpJump T, b0, b1] @ rest, True)"
proof -
  let ?bc = "concat is @ [OpFalse T] @ [OpJumpIfFalse T, b0, b1] @ rest"
  have ft: "OpFalse T \<noteq> OpTrue T" using code_ok_neq [OF T] by simp
  have 1: "Eval_optimizeJumps_loop T (length ?bc) 0 (OpNop T)
             (concat is @ [OpFalse T] @ ([OpJumpIfFalse T, b0, b1] @ rest))
         = Eval_optimizeJumps_loop T (length ?bc) (length (concat is) + 1) (OpFalse T)
             (concat is @ [OpFalse T] @ ([OpJumpIfFalse T, b0, b1] @ rest))"
    by (rule Eval_jumps_walk_const [OF T ok bf]) simp_all
  have at: "?bc ! (length (concat is) + 1) = OpJumpIfFalse T"
    by (simp add: nth_append)
  have 2: "Eval_optimizeJumps_loop T (length ?bc) (length (concat is) + 1) (OpFalse T) ?bc
      = Returns (concat is @ [OpNop T] @ [OpJump T, b0, b1] @ rest, True)"
    apply (subst Eval_optimizeJumps_loop.simps)
    unfolding Let_def at
    using stores_two [of "concat is" "OpFalse T" "OpJumpIfFalse T" "[b0, b1] @ rest" "OpNop T" "OpJump T"] ft
    by simp
  from 1 2 show ?thesis by (simp add: Eval_optimizeJumps_def)
qed

lemma Eval_optimizeJumps_none:
  assumes ok: "\<forall>i\<in>set is. instr_ok T i" and bf: "branch_free T (OpNop T) is"
  shows "Eval_optimizeJumps T (concat is) = Returns (concat is, False)"
proof -
  have "Eval_optimizeJumps_loop T (length (concat is)) (length ([] :: byte list)) (OpNop T)
          ([] @ concat is @ [])
      = Eval_optimizeJumps_loop T (length (concat is))
          (length ([] :: byte list) + length (concat is)) (last_op (OpNop T) is)
          ([] @ concat is @ [])"
    by (rule Eval_jumps_walk [OF ok bf]) simp
  also have "\<dots> = Returns (concat is, False)"
    by (subst Eval_optimizeJumps_loop.simps) simp
  finally show ?thesis by (simp add: Eval_optimizeJumps_def)
qed

lemma Eval_optimizeJumps_changed:
  assumes T: "code_ok T" and ok: "\<forall>i\<in>set js. instr_ok T i"
    and nbf: "\<not> branch_free T (OpNop T) js"
  shows "Eval_optimizeJumps T (concat js) \<noteq> Returns (bc', False)"
proof -
  from branch_first [OF nbf] code_ok_neq [OF T]
  obtain is1 c j is2 where split: "js = is1 @ c # j # is2"
    and bf: "branch_free T (OpNop T) (is1 @ [c])"
    and c: "hd c = OpTrue T \<or> hd c = OpFalse T" and j: "hd j = OpJumpIfFalse T"
    by metis
  have ok1: "\<forall>i\<in>set is1. instr_ok T i" and okc: "instr_ok T c" and okj: "instr_ok T j"
    using ok split by simp_all
  have bf1: "branch_free T (OpNop T) is1" using bf by (simp add: branch_free_snoc)
  from okc c code_ok_has_arg [OF T] have c1: "c = [hd c]"
    by (cases rule: instr_ok_cases) auto
  from okj j code_ok_has_arg [OF T] obtain b0 b1 where j3: "j = [OpJumpIfFalse T, b0, b1]"
    by (cases rule: instr_ok_cases) auto
  from c show ?thesis
  proof
    assume "hd c = OpTrue T"
    with c1 j3 split have "concat js = concat is1 @ [OpTrue T] @ [OpJumpIfFalse T, b0, b1] @ concat is2"
      by (metis append_Cons append_Nil concat.simps(2) concat_append)
    with Eval_optimizeJumps_True [OF T ok1 bf1, of b0 b1 "concat is2"] show ?thesis by simp
  next
    assume "hd c = OpFalse T"
    with c1 j3 split have "concat js = concat is1 @ [OpFalse T] @ [OpJumpIfFalse T, b0, b1] @ concat is2"
      by (metis append_Cons append_Nil concat.simps(2) concat_append)
    with Eval_optimizeJumps_False [OF T ok1 bf1, of b0 b1 "concat is2"] show ?thesis by simp
  qed
qed

lemma pairs_append:
  "pairs T prevOp (xs @ ys) = pairs T prevOp xs + pairs T (last_op prevOp xs) ys"
  by (induction xs arbitrary: prevOp) simp_all

lemma pairs_prev:
  assumes "(p = OpTrue T \<or> p = OpFalse T) \<longleftrightarrow> (q = OpTrue T \<or> q = OpFalse T)"
  shows "pairs T p is = pairs T q is"
  using assms by (cases "is") auto

lemma pairs_prev_le:
  assumes "p \<noteq> OpTrue T" "p \<noteq> OpFalse T"
  shows "pairs T p is \<le> pairs T q is"
  using assms by (cases "is") auto

lemma branch_free_pairs: "branch_free T prevOp is \<longleftrightarrow> pairs T prevOp is = 0"
  by (induction "is" arbitrary: prevOp) auto

lemma pair_split:
  assumes T: "code_ok T" and ok: "\<forall>i\<in>set js. instr_ok T i"
    and nbf: "\<not> branch_free T (OpNop T) js"
  obtains is1 c b0 b1 is2 where "js = is1 @ [c] # [OpJumpIfFalse T, b0, b1] # is2"
    and "branch_free T (OpNop T) is1" and "c = OpTrue T \<or> c = OpFalse T"
    and "\<forall>i\<in>set is1. instr_ok T i" and "\<forall>i\<in>set is2. instr_ok T i"
    and "pairs T (OpNop T) js = Suc (pairs T (OpNop T) is2)"
proof -
  from branch_first [OF nbf] code_ok_neq [OF T]
  obtain is1 c j is2 where split: "js = is1 @ c # j # is2"
    and bf: "branch_free T (OpNop T) (is1 @ [c])"
    and c: "hd c = OpTrue T \<or> hd c = OpFalse T" and j: "hd j = OpJumpIfFalse T"
    by metis
  have ok1: "\<forall>i\<in>set is1. instr_ok T i" and okc: "instr_ok T c" and okj: "instr_ok T j"
    and ok2: "\<forall>i\<in>set is2. instr_ok T i"
    using ok split by simp_all
  have bf1: "branch_free T (OpNop T) is1" using bf by (simp add: branch_free_snoc)
  from okc c code_ok_has_arg [OF T] obtain k where c1: "c = [k]"
    by (cases rule: instr_ok_cases) auto
  with c have k: "k = OpTrue T \<or> k = OpFalse T" by simp
  from okj j code_ok_has_arg [OF T] obtain b0 b1 where j3: "j = [OpJumpIfFalse T, b0, b1]"
    by (cases rule: instr_ok_cases) auto
  have kj: "k \<noteq> OpJumpIfFalse T" using k code_ok_neq [OF T] by auto
  have "pairs T (OpNop T) (is1 @ [[k]]) = 0"
    using bf unfolding c1 by (simp only: branch_free_pairs)
  then have "pairs T (OpNop T) js
      = pairs T (last_op (OpNop T) (is1 @ [[k]])) ([OpJumpIfFalse T, b0, b1] # is2)"
    using pairs_append [of T "OpNop T" "is1 @ [[k]]" "[OpJumpIfFalse T, b0, b1] # is2"]
    unfolding split c1 j3 by simp
  also have "\<dots> = Suc (pairs T (OpJumpIfFalse T) is2)"
    using k by simp
  also have "pairs T (OpJumpIfFalse T) is2 = pairs T (OpNop T) is2"
    using code_ok_neq [OF T] by (intro pairs_prev) simp
  finally have n: "pairs T (OpNop T) js = Suc (pairs T (OpNop T) is2)" .
  from that [OF _ bf1 k ok1 ok2 n] split c1 j3 show ?thesis by simp
qed

lemma Eval_optimizeJumps_repeat_ends:
  assumes T: "code_ok T"
  shows "(\<forall>i\<in>set js. instr_ok T i) \<Longrightarrow> pairs T (OpNop T) js < fuel \<Longrightarrow>
         \<exists>ks. Eval_optimizeJumps_repeat T fuel (concat js) = Some (Returns (concat ks))
              \<and> (\<forall>i\<in>set ks. instr_ok T i) \<and> branch_free T (OpNop T) ks
              \<and> length (concat ks) = length (concat js)"
proof (induction fuel arbitrary: js)
  case 0
  then show ?case by simp
next
  case (Suc fuel)
  show ?case
  proof (cases "branch_free T (OpNop T) js")
    case True
    from Eval_optimizeJumps_none [OF Suc.prems(1) True] Suc.prems(1) True
    show ?thesis by auto
  next
    case False
    from pair_split [OF T Suc.prems(1) False]
    obtain is1 c b0 b1 is2 where split: "js = is1 @ [c] # [OpJumpIfFalse T, b0, b1] # is2"
      and bf1: "branch_free T (OpNop T) is1" and c: "c = OpTrue T \<or> c = OpFalse T"
      and ok1: "\<forall>i\<in>set is1. instr_ok T i" and ok2: "\<forall>i\<in>set is2. instr_ok T i"
      and n: "pairs T (OpNop T) js = Suc (pairs T (OpNop T) is2)"
      by blast
    have cat: "concat js = concat is1 @ [c] @ [OpJumpIfFalse T, b0, b1] @ concat is2"
      by (simp add: split)
    let ?new = "if c = OpTrue T then [[OpNop T], [OpNop T], [OpNop T], [OpNop T]]
                else [[OpNop T], [OpJump T, b0, b1]]"
    let ?ks = "is1 @ ?new @ is2"
    have call: "Eval_optimizeJumps T (concat js) = Returns (concat ?ks, True)"
      using c Eval_optimizeJumps_True [OF T ok1 bf1, of b0 b1 "concat is2"]
        Eval_optimizeJumps_False [OF T ok1 bf1, of b0 b1 "concat is2"] code_ok_neq [OF T]
      unfolding cat by auto
    have oknew: "\<forall>i\<in>set ?new. instr_ok T i"
      using code_ok_Length [OF T] by (simp add: instr_ok_def)
    have okks: "\<forall>i\<in>set ?ks. instr_ok T i"
      using ok1 ok2 oknew by auto
    have lo: "last_op (OpNop T) (is1 @ ?new) = OpNop T \<or> last_op (OpNop T) (is1 @ ?new) = OpJump T"
      using last_op_snoc [of "OpNop T" "is1 @ [[OpNop T], [OpNop T], [OpNop T]]" "[OpNop T]"]
        last_op_snoc [of "OpNop T" "is1 @ [[OpNop T]]" "[OpJump T, b0, b1]"]
      by (cases "c = OpTrue T") simp_all
    have "pairs T (OpNop T) (is1 @ ?new) = pairs T (OpNop T) is1 + pairs T (last_op (OpNop T) is1) ?new"
      by (rule pairs_append)
    also have "pairs T (OpNop T) is1 = 0" using bf1 by (simp only: branch_free_pairs)
    also have "pairs T (last_op (OpNop T) is1) ?new = 0"
      using code_ok_neq [OF T] by simp
    finally have p0: "pairs T (OpNop T) (is1 @ ?new) = 0" by simp
    have "pairs T (OpNop T) ?ks
        = pairs T (OpNop T) (is1 @ ?new) + pairs T (last_op (OpNop T) (is1 @ ?new)) is2"
      using pairs_append [of T "OpNop T" "is1 @ ?new" is2] by simp
    also have "pairs T (last_op (OpNop T) (is1 @ ?new)) is2 = pairs T (OpNop T) is2"
      using lo code_ok_neq [OF T] by (intro pairs_prev) auto
    finally have pk: "pairs T (OpNop T) ?ks = pairs T (OpNop T) is2"
      using p0 by simp
    with n Suc.prems(2) have "pairs T (OpNop T) ?ks < fuel" by simp
    from Suc.IH [OF okks this]
    obtain ks where ks: "Eval_optimizeJumps_repeat T fuel (concat ?ks) = Some (Returns (concat ks))"
      "\<forall>i\<in>set ks. instr_ok T i" "branch_free T (OpNop T) ks"
      "length (concat ks) = length (concat ?ks)"
      by blast
    have "length (concat ?ks) = length (concat js)"
      by (simp add: split)
    with ks call show ?thesis by auto
  qed
qed

lemma offsets_append:
  "offsets off (xs @ ys) = offsets off xs @ offsets (off + length (concat xs)) ys"
  by (induction xs arbitrary: off) (simp_all add: add.assoc)

lemma offsets_range:
  assumes "\<forall>i\<in>set xs. i \<noteq> []" and "x \<in> set (offsets off xs)"
  shows "off \<le> x \<and> x < off + length (concat xs)"
  using assms
proof (induction xs arbitrary: off)
  case Nil
  then show ?case by simp
next
  case (Cons i xs)
  then have "i \<noteq> []" by simp
  then have "0 < length i" by simp
  with Cons show ?case by fastforce
qed

lemma offsets_split:
  assumes "x \<in> set (offsets off xs)"
  shows "\<exists>m s. xs = m @ s \<and> x = off + length (concat m)"
  using assms
proof (induction xs arbitrary: off)
  case Nil
  then show ?case by simp
next
  case (Cons i xs)
  show ?case
  proof (cases "x = off")
    case True
    then have "i # xs = [] @ i # xs \<and> x = off + length (concat ([] :: byte list list))" by simp
    then show ?thesis by blast
  next
    case False
    with Cons.prems have "x \<in> set (offsets (off + length i) xs)" by simp
    from Cons.IH [OF this] obtain m s where "xs = m @ s" "x = off + length i + length (concat m)"
      by blast
    then have "i # xs = (i # m) @ s \<and> x = off + length (concat (i # m))" by simp
    then show ?thesis by blast
  qed
qed

lemma offsets_nops: "set (offsets off (replicate n [x])) = {off..<off + n}"
  by (induction n arbitrary: off) (auto simp: Suc_le_eq)

lemma concat_nops: "concat (replicate n [x]) = replicate n x"
  by (induction n) simp_all

lemma nop_range_mid:
  "nop_range T (pre @ A @ B) (length pre) (length pre + length A)
     = pre @ replicate (length A) (OpNop T) @ B"
  by (rule nth_equalityI) (auto simp: nop_range_def nth_append)

lemma last_op_append: "last_op p (xs @ ys) = last_op (last_op p xs) ys"
  by (induction xs arbitrary: p) simp_all

lemma last_op_nops: "0 < n \<Longrightarrow> last_op p (replicate n [x]) = x"
  by (induction n arbitrary: p) (simp_all, metis last_op.simps(1) list.sel(1) not_gr_zero replicate_empty)

lemma pairs_nops: "OpNop T \<noteq> OpJumpIfFalse T \<Longrightarrow> pairs T p (replicate n [OpNop T]) = 0"
  by (induction n arbitrary: p) simp_all

lemma forward_nops:
  "OpNop T \<noteq> OpJumpIfFalse T \<Longrightarrow> forward T js off p (replicate n [OpNop T])"
  by (induction n arbitrary: off p) simp_all

lemma forward_append:
  "forward T js off p (xs @ ys)
     \<longleftrightarrow> forward T js off p xs \<and> forward T js (off + length (concat xs)) (last_op p xs) ys"
  by (induction xs arbitrary: off p) (auto simp: add.assoc)

lemma forward_mono:
  assumes "\<And>t. boundary js t \<Longrightarrow> boundary js' t" and "forward T js off p xs"
  shows "forward T js' off p xs"
  using assms(2) by (induction xs arbitrary: off p) (auto intro: assms(1))

lemma forward_prev:
  assumes "q \<noteq> OpFalse T" and "forward T js off p xs"
  shows "forward T js off q xs"
  using assms by (cases xs) auto


lemma boundary_nops:
  assumes ne: "\<forall>i\<in>set mid. i \<noteq> []" and b: "boundary (is1 @ mid @ suf) t"
  shows "boundary (is1 @ replicate (length (concat mid)) [x] @ suf) t"
proof -
  let ?n = "length (concat mid)"
  let ?p = "length (concat is1)"
  have "set (offsets ?p mid) \<subseteq> {?p..<?p + ?n}"
    using offsets_range [OF ne] by auto
  then have "set (offsets 0 (is1 @ mid @ suf))
      \<subseteq> set (offsets 0 (is1 @ replicate ?n [x] @ suf))"
    by (auto simp: offsets_append offsets_nops concat_nops)
  moreover have "length (concat (is1 @ mid @ suf)) = length (concat (is1 @ replicate ?n [x] @ suf))"
    by (simp add: concat_nops)
  ultimately show ?thesis using b unfolding boundary_def by auto
qed

lemma VM_jumps_step:
  assumes T: "code_ok T" and ok: "\<forall>i\<in>set js. instr_ok T i"
    and nbf: "\<not> branch_free T (OpNop T) js"
    and fw: "forward T js 0 (OpNop T) js"
  obtains is1 mid suf where "js = is1 @ mid @ suf" and "mid \<noteq> []"
    and "VM_optimizeJumps T (concat js)
           = Returns (concat (is1 @ replicate (length (concat mid)) [OpNop T] @ suf), True)"
    and "branch_free T (OpNop T) is1"
    and "pairs T (OpNop T) suf < pairs T (OpNop T) js"
proof -
  from pair_split [OF T ok nbf]
  obtain is1 c b0 b1 is2 where split: "js = is1 @ [c] # [OpJumpIfFalse T, b0, b1] # is2"
    and bf1: "branch_free T (OpNop T) is1" and c: "c = OpTrue T \<or> c = OpFalse T"
    and ok1: "\<forall>i\<in>set is1. instr_ok T i" and ok2: "\<forall>i\<in>set is2. instr_ok T i"
    and n: "pairs T (OpNop T) js = Suc (pairs T (OpNop T) is2)"
    by blast
  let ?J = "[OpJumpIfFalse T, b0, b1]"
  let ?p = "length (concat is1)"
  let ?t = "Uint16 b0 b1"
  have cat: "concat js = concat is1 @ [c] @ ?J @ concat is2"
    by (simp add: split)
  have ne1: "\<forall>i\<in>set is1. i \<noteq> []" using ok1 by (auto simp: instr_ok_def)
  from c show ?thesis
  proof
    assume ct: "c = OpTrue T"
    have "VM_optimizeJumps T (concat js)
        = Returns (concat (is1 @ replicate (length (concat [[c], ?J])) [OpNop T] @ is2), True)"
      using optimizeJumps_True [OF T ok1 bf1, of b0 b1 "concat is2"]
      unfolding cat ct by (simp add: concat_nops numeral_eq_Suc)
    moreover have "js = is1 @ [[c], ?J] @ is2" by (simp add: split)
    moreover have "pairs T (OpNop T) is2 < pairs T (OpNop T) js" using n by simp
    ultimately show ?thesis using that [of is1 "[[c], ?J]" is2] bf1 by blast
  next
    assume cf: "c = OpFalse T"
    have "forward T js (0 + length (concat (is1 @ [[c]]))) (last_op (OpNop T) (is1 @ [[c]]))
            (?J # is2)"
      using fw forward_append [of T js 0 "OpNop T" "is1 @ [[c]]" "?J # is2"]
      unfolding split by simp
    then have t: "?p + 1 \<le> ?t" and b: "boundary js ?t"
      using cf by (simp_all add: jump_target_def)
    have off: "set (offsets 0 js) = set (offsets 0 is1) \<union> {?p, ?p + 1} \<union> set (offsets (?p + 4) is2)"
      unfolding split by (auto simp: offsets_append eval_nat_numeral)
    have "?t \<notin> set (offsets 0 is1)"
      using offsets_range [OF ne1, of ?t 0] t by auto
    with b t off have "?t = ?p + 1 \<or> ?t \<in> set (offsets (?p + 4) is2)
        \<or> ?t = ?p + 4 + length (concat is2)"
      unfolding boundary_def by (auto simp: split)
    then consider (a) "?t = ?p + 1"
      | (b) m s where "is2 = m @ s" "?t = ?p + 4 + length (concat m)"
      using offsets_split [of ?t "?p + 4" is2] by (metis append_Nil2)
    then show ?thesis
    proof cases
      case a
      have len: "\<not> length (concat js) < ?t" using a by (simp add: cat)
      have "nop_range T (concat is1 @ [c] @ (?J @ concat is2)) ?p (?p + length [c])
          = concat is1 @ replicate (length [c]) (OpNop T) @ (?J @ concat is2)"
        by (rule nop_range_mid)
      then have nr: "nop_range T (concat js) ?p ?t
          = concat (is1 @ replicate (length (concat [[c]])) [OpNop T] @ (?J # is2))"
        using a by (simp add: cat)
      have "VM_optimizeJumps T (concat js)
          = Returns (concat (is1 @ replicate (length (concat [[c]])) [OpNop T] @ (?J # is2)), True)"
        using optimizeJumps_False [OF T ok1 bf1 cat [unfolded cf]] len nr by simp
      moreover have "js = is1 @ [[c]] @ (?J # is2)" by (simp add: split)
      moreover have "pairs T (OpNop T) (?J # is2) = pairs T (OpNop T) is2"
        using pairs_prev [of "OpJumpIfFalse T" T "OpNop T" is2] code_ok_neq [OF T] by simp
      then have "pairs T (OpNop T) (?J # is2) < pairs T (OpNop T) js" using n by simp
      ultimately show ?thesis using that [of is1 "[[c]]" "?J # is2"] bf1 by blast
    next
      case b
      let ?mid = "[c] # ?J # m"
      have len: "\<not> length (concat js) < ?t" using b by (simp add: cat)
      let ?A = "[c] @ ?J @ concat m"
      have e1: "?p + length ?A = ?t" using b(2) by simp
      have e2: "concat js = concat is1 @ ?A @ concat s" by (simp add: cat b(1))
      have e3: "concat (is1 @ replicate (length (concat ?mid)) [OpNop T] @ s)
          = concat is1 @ replicate (length ?A) (OpNop T) @ concat s"
        by (simp add: concat_nops)
      have nr: "nop_range T (concat js) ?p ?t
          = concat (is1 @ replicate (length (concat ?mid)) [OpNop T] @ s)"
        using nop_range_mid [of T "concat is1" ?A "concat s"] by (simp only: e1 e2 e3)
      have "VM_optimizeJumps T (concat js)
          = Returns (concat (is1 @ replicate (length (concat ?mid)) [OpNop T] @ s), True)"
        using optimizeJumps_False [OF T ok1 bf1 cat [unfolded cf]] len nr by simp
      moreover have "js = is1 @ ?mid @ s" by (simp add: split b)
      moreover have "pairs T (OpNop T) s \<le> pairs T (OpNop T) is2"
        using pairs_append [of T "OpNop T" m s]
          pairs_prev_le [of "OpNop T" T s "last_op (OpNop T) m"] code_ok_neq [OF T]
        unfolding b(1) by simp
      then have "pairs T (OpNop T) s < pairs T (OpNop T) js" using n by simp
      ultimately show ?thesis using that [of is1 ?mid s] bf1 by blast
    qed
  qed
qed

lemma VM_optimizeJumps_repeat_ends:
  assumes T: "code_ok T"
  shows "(\<forall>i\<in>set js. instr_ok T i) \<Longrightarrow> forward T js 0 (OpNop T) js \<Longrightarrow>
         pairs T (OpNop T) js < fuel \<Longrightarrow>
         \<exists>ks. VM_optimizeJumps_repeat T fuel (concat js) = Some (Returns (concat ks))
              \<and> (\<forall>i\<in>set ks. instr_ok T i) \<and> branch_free T (OpNop T) ks
              \<and> length (concat ks) = length (concat js)"
proof (induction fuel arbitrary: js)
  case 0
  then show ?case by simp
next
  case (Suc fuel)
  show ?case
  proof (cases "branch_free T (OpNop T) js")
    case True
    from optimizeJumps_none [OF Suc.prems(1) True] Suc.prems(1) True
    show ?thesis by auto
  next
    case False
    from VM_jumps_step [OF T Suc.prems(1) False Suc.prems(2)]
    obtain is1 mid suf where split: "js = is1 @ mid @ suf" and mid: "mid \<noteq> []"
      and call: "VM_optimizeJumps T (concat js)
           = Returns (concat (is1 @ replicate (length (concat mid)) [OpNop T] @ suf), True)"
      and bf1: "branch_free T (OpNop T) is1"
      and less: "pairs T (OpNop T) suf < pairs T (OpNop T) js"
      by blast
    let ?n = "length (concat mid)"
    let ?nops = "replicate ?n [OpNop T]"
    let ?ks = "is1 @ ?nops @ suf"
    have ok1: "\<forall>i\<in>set is1. instr_ok T i" and okm: "\<forall>i\<in>set mid. instr_ok T i"
      and oks: "\<forall>i\<in>set suf. instr_ok T i"
      using Suc.prems(1) split by auto
    have nem: "\<forall>i\<in>set mid. i \<noteq> []" using okm by (auto simp: instr_ok_def)
    have n0: "0 < ?n" using mid nem by (cases mid) auto
    have nj: "OpNop T \<noteq> OpJumpIfFalse T" "OpNop T \<noteq> OpFalse T" "OpNop T \<noteq> OpTrue T"
      using code_ok_neq [OF T] by simp_all
    have okn: "instr_ok T [OpNop T]"
      using code_ok_Length [OF T] by (simp add: instr_ok_def)
    have okks: "\<forall>i\<in>set ?ks. instr_ok T i"
      using ok1 oks okn by auto
    have lo: "last_op (OpNop T) (is1 @ ?nops) = OpNop T"
      using last_op_nops [OF n0] by (simp add: last_op_append)
    have "pairs T (OpNop T) ?ks
        = pairs T (OpNop T) is1 + pairs T (last_op (OpNop T) is1) ?nops + pairs T (OpNop T) suf"
      using pairs_append [of T "OpNop T" "is1 @ ?nops" suf] pairs_append [of T "OpNop T" is1 ?nops] lo
      by simp
    also have "\<dots> = pairs T (OpNop T) suf"
      using bf1 pairs_nops [OF nj(1)] by (simp add: branch_free_pairs)
    finally have pk: "pairs T (OpNop T) ?ks < fuel"
      using less Suc.prems(3) by simp
    have fw: "forward T js 0 (OpNop T) is1"
      and fws: "forward T js (length (concat (is1 @ mid))) (last_op (OpNop T) (is1 @ mid)) suf"
      using Suc.prems(2) forward_append [of T js 0 "OpNop T" "is1 @ mid" suf]
        forward_append [of T js 0 "OpNop T" is1 mid]
      unfolding split by simp_all
    have mono: "boundary js t \<Longrightarrow> boundary ?ks t" for t
      unfolding split by (rule boundary_nops [OF nem])
    have 1: "forward T ?ks 0 (OpNop T) is1"
      by (rule forward_mono [OF mono fw])
    have 2: "forward T ?ks (length (concat is1)) (last_op (OpNop T) is1) ?nops"
      by (rule forward_nops [OF nj(1)])
    have "forward T ?ks (length (concat (is1 @ mid))) (OpNop T) suf"
      by (rule forward_prev [OF nj(2)]) (rule forward_mono [OF mono fws])
    then have 3: "forward T ?ks (0 + length (concat (is1 @ ?nops))) (last_op (OpNop T) (is1 @ ?nops)) suf"
      unfolding lo by (simp add: concat_nops)
    have fwk: "forward T ?ks 0 (OpNop T) ?ks"
      using 1 2 3 forward_append [of T ?ks 0 "OpNop T" "is1 @ ?nops" suf]
        forward_append [of T ?ks 0 "OpNop T" is1 ?nops]
      by simp
    from Suc.IH [OF okks fwk pk]
    obtain ks where ks: "VM_optimizeJumps_repeat T fuel (concat ?ks) = Some (Returns (concat ks))"
      "\<forall>i\<in>set ks. instr_ok T i" "branch_free T (OpNop T) ks"
      "length (concat ks) = length (concat ?ks)"
      by blast
    have "length (concat ?ks) = length (concat js)"
      by (simp add: split concat_nops)
    with ks call show ?thesis by auto
  qed
qed

lemma VM_optimizeJumps_repeat_stuck:
  assumes "VM_optimizeJumps T bc = Returns (bc, True)"
  shows "VM_optimizeJumps_repeat T fuel bc = None"
  using assms by (induction fuel) simp_all

text \<open>
  C4, amended. Let \<open>is\<close> be well-formed instructions in which no \<open>OpJumpIfFalse\<close>
  comes right after an \<open>OpTrue\<close> or an \<open>OpFalse\<close>, so that what follows them is the
  first such pair the pass meets. For \<open>OpTrue; OpJumpIfFalse\<close> the pass, the machine's
  and the engine's, overwrites the four bytes of the two instructions with \<open>OpNop\<close>
  and reports a change. For \<open>OpFalse; OpJumpIfFalse t\<close>, with the \<open>OpFalse\<close> at offset
  \<open>p\<close>, the machine's pass overwrites with \<open>OpNop\<close> the bytes at the offsets from \<open>p\<close>
  up to, not including, \<open>t\<close>: the \<open>OpFalse\<close> and all bytes up to \<open>t\<close> when \<open>t\<close> is behind
  \<open>p\<close> and not behind the end of the bytecode; no byte when \<open>t\<close> is \<open>p\<close> or in front of
  it, and then it reports a change all the same and the machine's loop over the pass
  never ends; and when \<open>t\<close> is behind the end of the bytecode the index runs out of
  range. The engine's pass overwrites the \<open>OpFalse\<close> with \<open>OpNop\<close> and the opcode of the
  jump with \<open>OpJump\<close>, and leaves the bytes up to \<open>t\<close>; it reports a change. With no
  such pair either pass leaves the bytecode and reports no change; and whenever one
  reports no change on a well-formed program, no such pair is in it. The engine's
  loop over the pass ends on every well-formed program, after at most one call more
  than there are pairs, and leaves a well-formed program of the same length with no
  such pair. So does the machine's loop on a well-formed program in which every
  \<open>OpJumpIfFalse\<close> right after an \<open>OpFalse\<close> targets a boundary that is not in front of
  the jump.
\<close>

theorem optimizeJumps_rewrites:
  assumes T: "code_ok T" and ok: "\<forall>i\<in>set is. instr_ok T i"
    and bf: "branch_free T (OpNop T) is"
  shows "VM_optimizeJumps T (concat is @ [OpTrue T] @ [OpJumpIfFalse T, b0, b1] @ rest)
           = Returns (concat is @ [OpNop T, OpNop T, OpNop T, OpNop T] @ rest, True)
       \<and> Eval_optimizeJumps T (concat is @ [OpTrue T] @ [OpJumpIfFalse T, b0, b1] @ rest)
           = Returns (concat is @ [OpNop T, OpNop T, OpNop T, OpNop T] @ rest, True)
       \<and> VM_optimizeJumps T (concat is @ [OpFalse T] @ [OpJumpIfFalse T, b0, b1] @ rest)
           = (if length (concat is @ [OpFalse T] @ [OpJumpIfFalse T, b0, b1] @ rest) < Uint16 b0 b1
              then Panic
              else if Uint16 b0 b1 \<le> length (concat is)
              then Returns (concat is @ [OpFalse T] @ [OpJumpIfFalse T, b0, b1] @ rest, True)
              else Returns (nop_range T (concat is @ [OpFalse T] @ [OpJumpIfFalse T, b0, b1] @ rest)
                              (length (concat is)) (Uint16 b0 b1), True))
       \<and> (Uint16 b0 b1 \<le> length (concat is) \<longrightarrow>
            (\<forall>fuel. VM_optimizeJumps_repeat T fuel
                       (concat is @ [OpFalse T] @ [OpJumpIfFalse T, b0, b1] @ rest) = None))
       \<and> Eval_optimizeJumps T (concat is @ [OpFalse T] @ [OpJumpIfFalse T, b0, b1] @ rest)
           = Returns (concat is @ [OpNop T] @ [OpJump T, b0, b1] @ rest, True)
       \<and> VM_optimizeJumps T (concat is) = Returns (concat is, False)
       \<and> Eval_optimizeJumps T (concat is) = Returns (concat is, False)
       \<and> (\<forall>js bc'. (\<forall>i\<in>set js. instr_ok T i)
              \<and> (VM_optimizeJumps T (concat js) = Returns (bc', False)
                  \<or> Eval_optimizeJumps T (concat js) = Returns (bc', False))
              \<longrightarrow> branch_free T (OpNop T) js)
       \<and> (\<forall>js fuel. (\<forall>i\<in>set js. instr_ok T i) \<and> pairs T (OpNop T) js < fuel \<longrightarrow>
              (\<exists>ks. Eval_optimizeJumps_repeat T fuel (concat js) = Some (Returns (concat ks))
                    \<and> (\<forall>i\<in>set ks. instr_ok T i) \<and> branch_free T (OpNop T) ks
                    \<and> length (concat ks) = length (concat js)))
       \<and> (\<forall>js fuel. (\<forall>i\<in>set js. instr_ok T i) \<and> forward T js 0 (OpNop T) js
              \<and> pairs T (OpNop T) js < fuel \<longrightarrow>
              (\<exists>ks. VM_optimizeJumps_repeat T fuel (concat js) = Some (Returns (concat ks))
                    \<and> (\<forall>i\<in>set ks. instr_ok T i) \<and> branch_free T (OpNop T) ks
                    \<and> length (concat ks) = length (concat js)))"
proof -
  let ?bcF = "concat is @ [OpFalse T] @ [OpJumpIfFalse T, b0, b1] @ rest"
  have 3: "VM_optimizeJumps T ?bcF
           = (if length ?bcF < Uint16 b0 b1 then Panic
              else if Uint16 b0 b1 \<le> length (concat is) then Returns (?bcF, True)
              else Returns (nop_range T ?bcF (length (concat is)) (Uint16 b0 b1), True))"
    using optimizeJumps_False [OF T ok bf refl, of b0 b1 rest]
    by (simp add: nop_range_empty)
  have 4: "Uint16 b0 b1 \<le> length (concat is) \<longrightarrow>
            (\<forall>fuel. VM_optimizeJumps_repeat T fuel ?bcF = None)"
  proof (intro impI allI)
    fix fuel
    assume "Uint16 b0 b1 \<le> length (concat is)"
    with 3 have "VM_optimizeJumps T ?bcF = Returns (?bcF, True)" by simp
    then show "VM_optimizeJumps_repeat T fuel ?bcF = None"
      by (rule VM_optimizeJumps_repeat_stuck)
  qed
  have 9: "\<forall>js fuel. (\<forall>i\<in>set js. instr_ok T i) \<and> pairs T (OpNop T) js < fuel \<longrightarrow>
              (\<exists>ks. Eval_optimizeJumps_repeat T fuel (concat js) = Some (Returns (concat ks))
                    \<and> (\<forall>i\<in>set ks. instr_ok T i) \<and> branch_free T (OpNop T) ks
                    \<and> length (concat ks) = length (concat js))"
    using Eval_optimizeJumps_repeat_ends [OF T] by blast
  have 10: "\<forall>js fuel. (\<forall>i\<in>set js. instr_ok T i) \<and> forward T js 0 (OpNop T) js
              \<and> pairs T (OpNop T) js < fuel \<longrightarrow>
              (\<exists>ks. VM_optimizeJumps_repeat T fuel (concat js) = Some (Returns (concat ks))
                    \<and> (\<forall>i\<in>set ks. instr_ok T i) \<and> branch_free T (OpNop T) ks
                    \<and> length (concat ks) = length (concat js))"
    using VM_optimizeJumps_repeat_ends [OF T] by blast
  have 8: "\<forall>js bc'. (\<forall>i\<in>set js. instr_ok T i)
              \<and> (VM_optimizeJumps T (concat js) = Returns (bc', False)
                  \<or> Eval_optimizeJumps T (concat js) = Returns (bc', False))
              \<longrightarrow> branch_free T (OpNop T) js"
    using optimizeJumps_changed [OF T] Eval_optimizeJumps_changed [OF T] by blast
  from optimizeJumps_True [OF T ok bf, of b0 b1 rest]
    Eval_optimizeJumps_True [OF T ok bf, of b0 b1 rest]
    Eval_optimizeJumps_False [OF T ok bf, of b0 b1 rest]
    optimizeJumps_none [OF ok bf] Eval_optimizeJumps_none [OF ok bf]
    3 4 8 9 10
  show ?thesis by (intro conjI)
qed

theorem optimizeJumps_rewrites_witness:
  "VM_optimizeJumps sample_code (concat [[1, 0, 1]] @ [OpTrue sample_code]
       @ [OpJumpIfFalse sample_code, 0, 8] @ [13, 13])
     = Returns ([1, 0, 1, 2, 2, 2, 2, 13, 13], True)
   \<and> Eval_optimizeJumps sample_code (concat [[1, 0, 1]] @ [OpTrue sample_code]
       @ [OpJumpIfFalse sample_code, 0, 8] @ [13, 13])
     = Returns ([1, 0, 1, 2, 2, 2, 2, 13, 13], True)
   \<and> VM_optimizeJumps sample_code (concat [[1, 0, 1]] @ [OpFalse sample_code]
       @ [OpJumpIfFalse sample_code, 0, 8] @ [13, 13])
     = Returns ([1, 0, 1, 2, 2, 2, 2, 2, 13], True)
   \<and> Eval_optimizeJumps sample_code (concat [[1, 0, 1]] @ [OpFalse sample_code]
       @ [OpJumpIfFalse sample_code, 0, 8] @ [13, 13])
     = Returns ([1, 0, 1, 2, 11, 0, 8, 13, 13], True)
   \<and> VM_optimizeJumps sample_code (concat [[1, 0, 1]]) = Returns ([1, 0, 1], False)
   \<and> Eval_optimizeJumps sample_code (concat [[1, 0, 1]]) = Returns ([1, 0, 1], False)
   \<and> VM_optimizeJumps sample_code (concat [[13]] @ [OpFalse sample_code]
       @ [OpJumpIfFalse sample_code, 0, 0] @ [13])
     = Returns ([13, 10, 12, 0, 0, 13], True)
   \<and> VM_optimizeJumps_repeat sample_code 7 (concat [[13]] @ [OpFalse sample_code]
       @ [OpJumpIfFalse sample_code, 0, 0] @ [13]) = None
   \<and> VM_optimizeJumps sample_code (concat [[13]] @ [OpFalse sample_code]
       @ [OpJumpIfFalse sample_code, 0, 9] @ [13]) = Panic"
proof -
  have T: "code_ok sample_code"
    by (simp add: code_ok_def sample_code_def named_opcodes_def)
  have ok: "\<forall>i\<in>set [[1, 0, 1 :: byte]]. instr_ok sample_code i"
    by (simp add: instr_ok_def Length_def sample_code_def)
  have bf: "branch_free sample_code (OpNop sample_code) [[1, 0, 1]]"
    by (simp add: sample_code_def)
  have ok': "\<forall>i\<in>set [[13 :: byte]]. instr_ok sample_code i"
    by (simp add: instr_ok_def Length_def sample_code_def)
  have bf': "branch_free sample_code (OpNop sample_code) [[13]]"
    by (simp add: sample_code_def)
  have up: "[0..<9] = [0, 1, 2, 3, 4, 5, 6, 7, 8]"
    by (simp add: upt_rec)
  from optimizeJumps_rewrites [OF T ok bf, of 0 8 "[13, 13]"]
  have 1: "VM_optimizeJumps sample_code (concat [[1, 0, 1]] @ [OpTrue sample_code]
         @ [OpJumpIfFalse sample_code, 0, 8] @ [13, 13])
       = Returns ([1, 0, 1, 2, 2, 2, 2, 13, 13], True)
     \<and> Eval_optimizeJumps sample_code (concat [[1, 0, 1]] @ [OpTrue sample_code]
         @ [OpJumpIfFalse sample_code, 0, 8] @ [13, 13])
       = Returns ([1, 0, 1, 2, 2, 2, 2, 13, 13], True)
     \<and> VM_optimizeJumps sample_code (concat [[1, 0, 1]] @ [OpFalse sample_code]
         @ [OpJumpIfFalse sample_code, 0, 8] @ [13, 13])
       = Returns ([1, 0, 1, 2, 2, 2, 2, 2, 13], True)
     \<and> Eval_optimizeJumps sample_code (concat [[1, 0, 1]] @ [OpFalse sample_code]
         @ [OpJumpIfFalse sample_code, 0, 8] @ [13, 13])
       = Returns ([1, 0, 1, 2, 11, 0, 8, 13, 13], True)
     \<and> VM_optimizeJumps sample_code (concat [[1, 0, 1]]) = Returns ([1, 0, 1], False)
     \<and> Eval_optimizeJumps sample_code (concat [[1, 0, 1]]) = Returns ([1, 0, 1], False)"
    by (simp add: nop_range_def Uint16_def up) (simp add: sample_code_def)
  from optimizeJumps_rewrites [OF T ok' bf', of 0 0 "[13]"]
  have 2: "VM_optimizeJumps sample_code (concat [[13]] @ [OpFalse sample_code]
         @ [OpJumpIfFalse sample_code, 0, 0] @ [13])
       = Returns ([13, 10, 12, 0, 0, 13], True)
     \<and> VM_optimizeJumps_repeat sample_code 7 (concat [[13]] @ [OpFalse sample_code]
         @ [OpJumpIfFalse sample_code, 0, 0] @ [13]) = None"
    by (simp add: Uint16_def) (simp add: sample_code_def)
  from optimizeJumps_rewrites [OF T ok' bf', of 0 9 "[13]"]
  have 3: "VM_optimizeJumps sample_code (concat [[13]] @ [OpFalse sample_code]
         @ [OpJumpIfFalse sample_code, 0, 9] @ [13]) = Panic"
    by (simp add: Uint16_def)
  from 1 2 3 show ?thesis by blast
qed

text \<open>
  C4, as stated, fails for the engine's pass: on \<open>OpFalse\<close>, jump-if-false to 8, push 1,
  return, return, the bytes in front of offset 8 are not all \<open>OpNop\<close> afterwards: the
  jump and the push stay.
\<close>

theorem Eval_optimizeJumps_keeps_region:
  "Eval_optimizeJumps sample_code
       [OpFalse sample_code, OpJumpIfFalse sample_code, 0, 8, OpPush sample_code, 0, 1,
        OpReturn sample_code, OpReturn sample_code]
     = Returns ([OpNop sample_code, OpJump sample_code, 0, 8, OpPush sample_code, 0, 1,
                 OpReturn sample_code, OpReturn sample_code], True)
   \<and> OpJump sample_code \<noteq> OpNop sample_code \<and> OpPush sample_code \<noteq> OpNop sample_code"
  by (simp add: Eval_optimizeJumps_def Eval_optimizeJumps_loop.simps Length_def store_def
        sample_code_def)

section \<open>Constant folding\<close>

lemma Walk_error:
  assumes "instr_ok T i" and "length pre < ln"
    and "cb (length pre) (hd i) (instr_arg T i) (pre @ i @ rest, c) = Returns (st', keep, Some e)"
  shows "WalkBytecode T cb ln (length pre) (pre @ i @ rest, c) = Returns (st', Some e)"
  using assms by (subst WalkBytecode.simps) (simp add: fetch_instr)

lemma store_nat1:
  "store bc (int k + 1) x = (if k + 1 < length bc then Returns (bc[k + 1 := x]) else Panic)"
proof -
  have "int k + 1 = int (k + 1)" by simp
  then show ?thesis by (simp only: store_nat)
qed

lemma store_nat2:
  "store bc (int k + 2) x = (if k + 2 < length bc then Returns (bc[k + 2 := x]) else Panic)"
proof -
  have "int k + 2 = int (k + 2)" by simp
  then show ?thesis by (simp only: store_nat)
qed

lemma stores_fold:
  assumes "aoff + 2 < length bc" "boff + 2 < length bc" "offset < length bc"
  shows "stores bc [(int aoff + 1, x), (int aoff + 2, y), (int boff, n), (int boff + 1, n),
                    (int boff + 2, n), (int offset, n)]
       = Returns (bc[aoff + 1 := x, aoff + 2 := y, boff := n, boff + 1 := n, boff + 2 := n,
                     offset := n])"
  using assms unfolding stores.simps store_nat store_nat1 store_nat2 by simp

lemma uint16_result: "0 \<le> r \<Longrightarrow> r \<le> 65534 \<Longrightarrow> uint16 r = nat r"
  by (simp add: uint16_def)

lemma maths_visitor_arith:
  assumes T: "code_ok T"
    and op: "op = OpMul T \<or> op = OpAdd T \<or> op = OpSub T \<or> op = OpDiv T"
    and len: "2 \<le> length args"
  shows "maths_visitor T offset op arg (bc, args, ch)
       = (let a = args ! (length args - 1); b = args ! (length args - 2)
          in if op = OpDiv T \<and> snd a = 0
             then Returns ((bc, args, ch), False, Some ''attempted division by zero'')
             else let result = fold_result T op (snd b) (snd a)
                  in if result \<ge> 0 \<and> result \<le> 65534 then
                       (case stores bc
                               [(int (fst a) + 1, PutUint16 (uint16 result) ! 0),
                                (int (fst a) + 2, PutUint16 (uint16 result) ! 1),
                                (int (fst b), OpNop T), (int (fst b) + 1, OpNop T),
                                (int (fst b) + 2, OpNop T),
                                (int offset, OpNop T)] of
                          Panic \<Rightarrow> Panic
                        | Returns bc' \<Rightarrow> Returns ((bc', args, True), False, None))
                     else Returns ((bc, [], ch), True, None))"
proof -
  have nop: "op \<noteq> OpPush T" "op \<noteq> OpNop T" "op \<noteq> OpEqual T" "op \<noteq> OpNotEqual T"
    using op code_ok_neq [OF T] by auto
  have r: "(if op = OpDiv T then bv div av
            else if op = OpSub T then bv - av
            else if op = OpAdd T then av + bv
            else if op = OpMul T then av * bv else 0) = fold_result T op bv av" for bv av
    using op code_ok_neq [OF T] by (auto simp: fold_result_def)
  show ?thesis
    unfolding maths_visitor_def Let_def prod.case
    using nop op len by (simp only: if_False if_True simp_thms r mod_by_1)
qed


lemma maths_visitor_fold:
  assumes T: "code_ok T"
    and op: "op = OpMul T \<or> op = OpAdd T \<or> op = OpSub T \<or> op = OpDiv T"
    and args: "args = win @ [(boff, bv), (aoff, av)]"
    and nz: "\<not> (op = OpDiv T \<and> av = 0)"
    and rng: "aoff + 2 < length bc" "boff + 2 < length bc" "offset < length bc"
  shows "maths_visitor T offset op arg (bc, args, ch)
       = (if 0 \<le> fold_result T op bv av \<and> fold_result T op bv av \<le> 65534
          then Returns ((folded T bc aoff boff offset (fold_result T op bv av), args, True),
                        False, None)
          else Returns ((bc, [], ch), True, None))"
proof -
  have a: "args ! (length args - 1) = (aoff, av)" and b: "args ! (length args - 2) = (boff, bv)"
    and len: "2 \<le> length args"
    using args by (simp_all add: nth_append)
  let ?r = "fold_result T op bv av"
  show ?thesis
  proof (cases "0 \<le> ?r \<and> ?r \<le> 65534")
    case False
    with nz show ?thesis
      unfolding maths_visitor_arith [OF T op len] a b Let_def fst_conv snd_conv
      by (simp only: if_False)
  next
    case True
    then have u: "uint16 ?r = nat ?r" by (simp add: uint16_result)
    have st: "stores bc [(int aoff + 1, PutUint16 (nat ?r) ! 0), (int aoff + 2, PutUint16 (nat ?r) ! 1),
                    (int boff, OpNop T), (int boff + 1, OpNop T),
                    (int boff + 2, OpNop T), (int offset, OpNop T)]
        = Returns (folded T bc aoff boff offset ?r)"
      unfolding folded_def stores_fold [OF rng] by (simp add: PutUint16_def)
    from True nz show ?thesis
      unfolding maths_visitor_arith [OF T op len] a b Let_def fst_conv snd_conv u st
      by (simp only: if_False if_True outcome.case)
  qed
qed

lemma maths_visitor_div_zero:
  assumes T: "code_ok T" and args: "args = win @ [(boff, bv), (aoff, 0)]"
  shows "maths_visitor T offset (OpDiv T) arg (bc, args, ch)
       = Returns ((bc, args, ch), False, Some ''attempted division by zero'')"
proof -
  have a: "args ! (length args - 1) = (aoff, 0)" and len: "2 \<le> length args"
    using args by (simp_all add: nth_append)
  have op: "OpDiv T = OpMul T \<or> OpDiv T = OpAdd T \<or> OpDiv T = OpSub T \<or> OpDiv T = OpDiv T"
    by simp
  show ?thesis
    unfolding maths_visitor_arith [OF T op len] a Let_def fst_conv snd_conv
    by (simp only: simp_thms if_True)
qed


lemma maths_visitor_track:
  assumes T: "code_ok T" and i: "instr_ok T i"
    and nop: "hd i \<noteq> OpEqual T" "hd i \<noteq> OpNotEqual T" "hd i \<noteq> OpMul T"
      "hd i \<noteq> OpAdd T" "hd i \<noteq> OpSub T" "hd i \<noteq> OpDiv T"
  shows "maths_visitor T off (hd i) (instr_arg T i) (bc, args, ch)
       = Returns ((bc,
                   (if hd i = OpPush T then args @ [(off, push_value i)]
                    else if hd i = OpNop T then args else []), ch), True, None)"
  using nop code_ok_has_arg [OF T]
  by (auto simp: maths_visitor_def instr_arg_def push_value_def)

lemma window_values:
  "map snd (if c then args @ [(off, v)] else if d then args else [])
     = (if c then map snd args @ [v] else if d then map snd args else [])"
  by simp

lemma window_last:
  assumes "2 \<le> length args"
  shows "map snd args ! (length args - 1) = snd (args ! (length args - 1))"
    and "map snd args ! (length args - 2) = snd (args ! (length args - 2))"
  using assms by simp_all

lemma operator_single:
  assumes T: "code_ok T" and i: "instr_ok T i"
    and op: "hd i = OpEqual T \<or> hd i = OpNotEqual T \<or> hd i = OpMul T \<or> hd i = OpAdd T
             \<or> hd i = OpSub T \<or> hd i = OpDiv T"
  obtains k where "i = [k]" and "k \<noteq> OpPush T" and "k \<noteq> OpNop T"
proof -
  from i op code_ok_has_arg [OF T] obtain k where k: "i = [k]"
    by (cases rule: instr_ok_cases) auto
  with op code_ok_neq [OF T] have "k \<noteq> OpPush T" "k \<noteq> OpNop T"
    by auto
  with k that show ?thesis by blast
qed

lemma maths_visitor_short:
  assumes T: "code_ok T"
    and op: "op = OpEqual T \<or> op = OpNotEqual T \<or> op = OpMul T \<or> op = OpAdd T
             \<or> op = OpSub T \<or> op = OpDiv T"
    and len: "length args < 2"
  shows "maths_visitor T off op arg (bc, args, ch) = Returns ((bc, [], ch), True, None)"
proof -
  have n: "op \<noteq> OpPush T" "op \<noteq> OpNop T" "\<not> 2 \<le> length args"
    using op len code_ok_neq [OF T] by auto
  show ?thesis
  proof (cases "op = OpEqual T \<or> op = OpNotEqual T")
    case True
    with n show ?thesis
      unfolding maths_visitor_def prod.case
      by (simp only: if_False if_True)
  next
    case False
    with op have "op = OpMul T \<or> op = OpAdd T \<or> op = OpSub T \<or> op = OpDiv T" by blast
    with n False show ?thesis
      unfolding maths_visitor_def prod.case
      by (simp only: if_False if_True)
  qed
qed

lemma maths_visitor_quiet:
  assumes T: "code_ok T" and i: "instr_ok T i"
    and nf: "\<not> fires T (map snd args) (hd i)"
  shows "maths_visitor T off (hd i) (instr_arg T i) (bc, args, ch)
       = Returns ((bc,
                   (if hd i = OpPush T then args @ [(off, push_value i)]
                    else if hd i = OpNop T then args else []), ch), True, None)"
proof (cases "hd i = OpEqual T \<or> hd i = OpNotEqual T \<or> hd i = OpMul T \<or> hd i = OpAdd T
             \<or> hd i = OpSub T \<or> hd i = OpDiv T")
  case False
  then show ?thesis using maths_visitor_track [OF T i] by blast
next
  case True
  from operator_single [OF T i True]
  obtain k where k: "i = [k]" and n: "k \<noteq> OpPush T" "k \<noteq> OpNop T" by blast
  have hd: "hd i = k" by (simp add: k)
  note op = True [unfolded hd] and nf' = nf [unfolded hd]
  have "maths_visitor T off k (instr_arg T i) (bc, args, ch) = Returns ((bc, [], ch), True, None)"
  proof (cases "2 \<le> length args")
    case False
    then have "length args < 2" by simp
    from maths_visitor_short [OF T op this] show ?thesis .
  next
    case len: True
    with nf' op have ar: "k = OpMul T \<or> k = OpAdd T \<or> k = OpSub T \<or> k = OpDiv T"
      by (auto simp: fires_def)
    from nf' len ar
    have nz: "\<not> (k = OpDiv T \<and> snd (args ! (length args - 1)) = 0)"
      and nr: "\<not> (0 \<le> fold_result T k (snd (args ! (length args - 2)))
                          (snd (args ! (length args - 1)))
               \<and> fold_result T k (snd (args ! (length args - 2)))
                          (snd (args ! (length args - 1))) \<le> 65534)"
      unfolding fires_def length_map window_last [OF len] by blast+
    show ?thesis
      using nz nr
      unfolding maths_visitor_arith [OF T ar len] Let_def
      by (simp only: if_False)
  qed
  with n show ?thesis unfolding hd by (simp only: if_False)
qed

lemma maths_walk:
  assumes T: "code_ok T" and "\<forall>i\<in>set is. instr_ok T i" and "quiet T (map snd args) is"
    and "ln = length pre + length (concat is) + length rest"
  shows "WalkBytecode T (maths_visitor T) ln (length pre) (pre @ concat is @ rest, args, ch)
       = WalkBytecode T (maths_visitor T) ln (length pre + length (concat is))
           (pre @ concat is @ rest, track T (length pre) args is, ch)"
  using assms(2-)
proof (induction "is" arbitrary: pre args)
  case Nil
  then show ?case by simp
next
  case (Cons i "is")
  have i: "instr_ok T i" using Cons.prems(1) by simp
  then have "i \<noteq> []" by (simp add: instr_ok_def)
  then have lt: "length pre < ln" using Cons.prems(3) by simp
  let ?args = "if hd i = OpPush T then args @ [(length pre, push_value i)]
               else if hd i = OpNop T then args else []"
  have nf: "\<not> fires T (map snd args) (hd i)"
    using Cons.prems(2) by simp
  have okis: "\<forall>i\<in>set is. instr_ok T i" using Cons.prems(1) by simp
  have of: "quiet T (map snd ?args) is"
    using Cons.prems(2) unfolding window_values by simp
  have "WalkBytecode T (maths_visitor T) ln (length pre) (pre @ i @ (concat is @ rest), args, ch)
      = WalkBytecode T (maths_visitor T) ln (length pre + length i)
          (pre @ i @ (concat is @ rest), ?args, ch)"
    by (rule Walk_keep [OF i lt]) (rule maths_visitor_quiet [OF T i nf])
  also have "\<dots> = WalkBytecode T (maths_visitor T) ln (length (pre @ i))
          ((pre @ i) @ concat is @ rest, ?args, ch)"
    by simp
  also have "\<dots> = WalkBytecode T (maths_visitor T) ln (length (pre @ i) + length (concat is))
          ((pre @ i) @ concat is @ rest, track T (length (pre @ i)) ?args is, ch)"
    by (rule Cons.IH [OF okis of]) (use Cons.prems(3) in simp)
  finally show ?case by (simp add: add.assoc)
qed

lemma track_range:
  assumes T: "code_ok T" and "\<forall>i\<in>set is. instr_ok T i"
    and "(k, v) \<in> set (track T off args is)"
  shows "(k, v) \<in> set args \<or> (off \<le> k \<and> k + 3 \<le> off + length (concat is))"
  using assms(2-)
proof (induction "is" arbitrary: off args)
  case Nil
  then show ?case by simp
next
  case (Cons i "is")
  let ?args = "if hd i = OpPush T then args @ [(off, push_value i)]
               else if hd i = OpNop T then args else []"
  have okis: "\<forall>i\<in>set is. instr_ok T i" and i: "instr_ok T i" using Cons.prems(1) by simp_all
  have "(k, v) \<in> set (track T (off + length i) ?args is)" using Cons.prems(2) by simp
  from Cons.IH [OF okis this]
  have "(k, v) \<in> set ?args \<or> (off + length i \<le> k \<and> k + 3 \<le> off + length i + length (concat is))" .
  moreover have "length i = 3" if "hd i = OpPush T"
    using i that code_ok_Length [OF T] by (simp add: instr_ok_def)
  ultimately show ?case by (auto split: if_splits)
qed


lemma op_ok:
  assumes T: "code_ok T"
    and op: "op = OpMul T \<or> op = OpAdd T \<or> op = OpSub T \<or> op = OpDiv T"
  shows "instr_ok T [op]"
  using op code_ok_Length [OF T] by (auto simp: instr_ok_def)

lemma maths_walk_prefix:
  assumes T: "code_ok T" and ok: "\<forall>i\<in>set is. instr_ok T i" and of: "quiet T [] is"
  shows "WalkBytecode T (maths_visitor T) (length (concat is @ rest)) 0 (concat is @ rest, [], False)
       = WalkBytecode T (maths_visitor T) (length (concat is @ rest)) (length (concat is))
           (concat is @ rest, track T 0 [] is, False)"
proof -
  have "WalkBytecode T (maths_visitor T) (length (concat is @ rest)) (length ([] :: byte list))
          ([] @ concat is @ rest, [], False)
      = WalkBytecode T (maths_visitor T) (length (concat is @ rest))
          (length ([] :: byte list) + length (concat is))
          ([] @ concat is @ rest, track T (length ([] :: byte list)) [] is, False)"
    by (rule maths_walk [OF T ok]) (use of in simp_all)
  then show ?thesis by simp
qed

lemma optimizeMaths_fold:
  assumes T: "code_ok T" and ok: "\<forall>i\<in>set is. instr_ok T i" and of: "quiet T [] is"
    and tr: "track T 0 [] is = win @ [(boff, bv), (aoff, av)]"
    and op: "op = OpMul T \<or> op = OpAdd T \<or> op = OpSub T \<or> op = OpDiv T"
    and nz: "\<not> (op = OpDiv T \<and> av = 0)"
    and r: "0 \<le> fold_result T op bv av" "fold_result T op bv av \<le> 65534"
  shows "VM_optimizeMaths T (concat is @ [op] @ rest)
       = Returns (folded T (concat is @ [op] @ rest) aoff boff (length (concat is))
                    (fold_result T op bv av), True, None)"
proof -
  let ?bc = "concat is @ [op] @ rest"
  let ?args = "win @ [(boff, bv), (aoff, av)]"
  have "(aoff, av) \<in> set (track T 0 [] is)" "(boff, bv) \<in> set (track T 0 [] is)"
    by (simp_all add: tr)
  from track_range [OF T ok this(1)] track_range [OF T ok this(2)]
  have rng: "aoff + 2 < length ?bc" "boff + 2 < length ?bc" "length (concat is) < length ?bc"
    by simp_all
  have v: "maths_visitor T (length (concat is)) (hd [op]) (instr_arg T [op]) (concat is @ [op] @ rest, ?args, False)
      = Returns ((folded T ?bc aoff boff (length (concat is)) (fold_result T op bv av), ?args, True),
                 False, None)"
    using maths_visitor_fold [where win = win and arg = "instr_arg T [op]" and ch = False, OF T op refl nz rng] r by simp
  have "WalkBytecode T (maths_visitor T) (length ?bc) (length (concat is)) (concat is @ [op] @ rest, ?args, False)
      = Returns ((folded T ?bc aoff boff (length (concat is)) (fold_result T op bv av), ?args, True), None)"
    by (rule Walk_stop [where cb = "maths_visitor T", OF op_ok [OF T op] _ v]) simp
  with maths_walk_prefix [OF T ok of, of "[op] @ rest"] tr show ?thesis
    by (simp add: VM_optimizeMaths_def)
qed

lemma optimizeMaths_no_fold:
  assumes T: "code_ok T" and ok: "\<forall>i\<in>set is. instr_ok T i" and of: "quiet T [] is"
    and tr: "track T 0 [] is = win @ [(boff, bv), (aoff, av)]"
    and op: "op = OpMul T \<or> op = OpAdd T \<or> op = OpSub T \<or> op = OpDiv T"
    and nz: "\<not> (op = OpDiv T \<and> av = 0)"
    and r: "\<not> (0 \<le> fold_result T op bv av \<and> fold_result T op bv av \<le> 65534)"
    and ok2: "\<forall>i\<in>set is2. instr_ok T i" and of2: "quiet T [] is2"
  shows "VM_optimizeMaths T (concat is @ [op] @ concat is2)
       = Returns (concat is @ [op] @ concat is2, False, None)"
proof -
  let ?bc = "concat is @ [op] @ concat is2"
  let ?args = "win @ [(boff, bv), (aoff, av)]"
  have "(aoff, av) \<in> set (track T 0 [] is)" "(boff, bv) \<in> set (track T 0 [] is)"
    by (simp_all add: tr)
  from track_range [OF T ok this(1)] track_range [OF T ok this(2)]
  have rng: "aoff + 2 < length ?bc" "boff + 2 < length ?bc" "length (concat is) < length ?bc"
    by simp_all
  have v: "maths_visitor T (length (concat is)) (hd [op]) (instr_arg T [op])
             (concat is @ [op] @ concat is2, ?args, False)
      = Returns ((concat is @ [op] @ concat is2, [], False), True, None)"
    using maths_visitor_fold [where win = win and arg = "instr_arg T [op]" and ch = False, OF T op refl nz rng] r by simp
  have 1: "WalkBytecode T (maths_visitor T) (length ?bc) (length (concat is))
             (concat is @ [op] @ concat is2, ?args, False)
      = WalkBytecode T (maths_visitor T) (length ?bc) (length (concat is) + length [op])
             (concat is @ [op] @ concat is2, [], False)"
    by (rule Walk_keep [where cb = "maths_visitor T", OF op_ok [OF T op] _ v]) simp
  have 2: "WalkBytecode T (maths_visitor T) (length ?bc) (length (concat is @ [op]))
             ((concat is @ [op]) @ concat is2 @ [], [], False)
      = WalkBytecode T (maths_visitor T) (length ?bc) (length (concat is @ [op]) + length (concat is2))
             ((concat is @ [op]) @ concat is2 @ [], track T (length (concat is @ [op])) [] is2, False)"
    by (rule maths_walk [OF T ok2]) (use of2 in simp_all)
  from maths_walk_prefix [OF T ok of, of "[op] @ concat is2"] tr 1 2 show ?thesis
    by (simp add: VM_optimizeMaths_def Walk_end)
qed

lemma optimizeMaths_div_zero:
  assumes T: "code_ok T" and ok: "\<forall>i\<in>set is. instr_ok T i" and of: "quiet T [] is"
    and tr: "track T 0 [] is = win @ [(boff, bv), (aoff, 0)]"
  shows "VM_optimizeMaths T (concat is @ [OpDiv T] @ rest)
       = Returns (concat is @ [OpDiv T] @ rest, False, None)"
proof -
  let ?bc = "concat is @ [OpDiv T] @ rest"
  let ?args = "win @ [(boff, bv), (aoff, 0)]"
  have okd: "instr_ok T [OpDiv T]" by (rule op_ok [OF T]) simp
  have v: "maths_visitor T (length (concat is)) (hd [OpDiv T]) (instr_arg T [OpDiv T])
             (concat is @ [OpDiv T] @ rest, ?args, False)
      = Returns ((concat is @ [OpDiv T] @ rest, ?args, False), False, Some ''attempted division by zero'')"
    using maths_visitor_div_zero [where arg = "instr_arg T [OpDiv T]", OF T refl] by simp
  have "WalkBytecode T (maths_visitor T) (length ?bc) (length (concat is))
          (concat is @ [OpDiv T] @ rest, ?args, False)
      = Returns ((concat is @ [OpDiv T] @ rest, ?args, False), Some ''attempted division by zero'')"
    by (rule Walk_error [where cb = "maths_visitor T", OF okd _ v]) simp
  with maths_walk_prefix [OF T ok of, of "[OpDiv T] @ rest"] tr show ?thesis
    by (simp add: VM_optimizeMaths_def)
qed


lemma track_push:
  assumes T: "code_ok T" and "\<forall>i\<in>set is. instr_ok T i"
    and "(k, v) \<in> set (track T (length pre) args is)"
  shows "(k, v) \<in> set args
       \<or> ((pre @ concat is) ! k = OpPush T
          \<and> v = int (Uint16 ((pre @ concat is) ! (k + 1)) ((pre @ concat is) ! (k + 2))))"
  using assms(2-)
proof (induction "is" arbitrary: pre args)
  case Nil
  then show ?case by simp
next
  case (Cons i "is")
  let ?args = "if hd i = OpPush T then args @ [(length pre, push_value i)]
               else if hd i = OpNop T then args else []"
  have okis: "\<forall>i\<in>set is. instr_ok T i" and i: "instr_ok T i" using Cons.prems(1) by simp_all
  have "(k, v) \<in> set (track T (length (pre @ i)) ?args is)" using Cons.prems(2) by simp
  from Cons.IH [OF okis this]
  have d: "(k, v) \<in> set ?args
       \<or> (((pre @ i) @ concat is) ! k = OpPush T
          \<and> v = int (Uint16 (((pre @ i) @ concat is) ! (k + 1)) (((pre @ i) @ concat is) ! (k + 2))))" .
  show ?case
  proof (cases "(k, v) = (length pre, push_value i) \<and> hd i = OpPush T")
    case True
    with i code_ok_has_arg [OF T] obtain b0 b1 where "i = [OpPush T, b0, b1]"
      by (cases rule: instr_ok_cases) auto
    with True show ?thesis by (simp add: push_value_def nth_append)
  next
    case False
    with d show ?thesis by (auto split: if_splits)
  qed
qed

lemma track_spaced:
  assumes T: "code_ok T" and "\<forall>i\<in>set is. instr_ok T i"
    and "sorted_wrt (\<lambda>x y. fst x + 3 \<le> fst y) args" and "\<forall>x\<in>set args. fst x + 3 \<le> off"
  shows "sorted_wrt (\<lambda>x y. fst x + 3 \<le> fst y) (track T off args is)"
  using assms(2-)
proof (induction "is" arbitrary: off args)
  case Nil
  then show ?case by simp
next
  case (Cons i "is")
  let ?args = "if hd i = OpPush T then args @ [(off, push_value i)]
               else if hd i = OpNop T then args else []"
  have okis: "\<forall>i\<in>set is. instr_ok T i" and i: "instr_ok T i" using Cons.prems(1) by simp_all
  have len: "length i = 3" if "hd i = OpPush T"
    using i that code_ok_Length [OF T] by (simp add: instr_ok_def)
  have 1: "sorted_wrt (\<lambda>x y. fst x + 3 \<le> fst y) ?args"
    using Cons.prems(2,3) by (auto simp: sorted_wrt_append)
  have 2: "\<forall>x\<in>set ?args. fst x + 3 \<le> off + length i"
    using Cons.prems(3) len by auto
  from Cons.IH [OF okis 1 2] show ?case by simp
qed

lemma track_window:
  assumes T: "code_ok T" and ok: "\<forall>i\<in>set is. instr_ok T i"
    and tr: "track T 0 [] is = win @ [(boff, bv), (aoff, av)]"
  shows "boff + 3 \<le> aoff" and "aoff + 3 \<le> length (concat is)"
    and "concat is ! boff = OpPush T"
    and "bv = int (Uint16 (concat is ! (boff + 1)) (concat is ! (boff + 2)))"
    and "concat is ! aoff = OpPush T"
    and "av = int (Uint16 (concat is ! (aoff + 1)) (concat is ! (aoff + 2)))"
proof -
  have "sorted_wrt (\<lambda>x y. fst x + 3 \<le> fst y) (track T 0 [] is)"
    by (rule track_spaced [OF T ok]) simp_all
  then show "boff + 3 \<le> aoff" by (simp add: tr sorted_wrt_append)
  have a: "(aoff, av) \<in> set (track T 0 [] is)" and b: "(boff, bv) \<in> set (track T 0 [] is)"
    by (simp_all add: tr)
  from track_range [OF T ok a] show "aoff + 3 \<le> length (concat is)" by simp
  from track_push [OF T ok, of boff bv "[]" "[]"] b
  show "concat is ! boff = OpPush T"
    "bv = int (Uint16 (concat is ! (boff + 1)) (concat is ! (boff + 2)))" by simp_all
  from track_push [OF T ok, of aoff av "[]" "[]"] a
  show "concat is ! aoff = OpPush T"
    "av = int (Uint16 (concat is ! (aoff + 1)) (concat is ! (aoff + 2)))" by simp_all
qed


lemma Eval_optimizeMaths_division_by_zero:
  assumes T: "code_ok T"
  shows "Eval_optimizeMaths T [OpPush T, 0, 10, OpPush T, 0, 0, OpDiv T, OpReturn T] = Panic"
proof -
  let ?bc = "[OpPush T, 0, 10, OpPush T, 0, 0, OpDiv T, OpReturn T]"
  note facts = code_ok_neq [OF T] code_ok_Length [OF T]
  have 1: "Eval_optimizeMaths_loop T 8 0 [] ?bc = Eval_optimizeMaths_loop T 8 3 [(0, 10)] ?bc"
    by (subst Eval_optimizeMaths_loop.simps) (simp add: facts opArg_at_def Uint16_def Let_def)
  have 2: "Eval_optimizeMaths_loop T 8 3 [(0, 10)] ?bc
         = Eval_optimizeMaths_loop T 8 6 [(0, 10), (3, 0)] ?bc"
    by (subst Eval_optimizeMaths_loop.simps) (simp add: facts opArg_at_def Uint16_def Let_def)
  have 3: "Eval_optimizeMaths_loop T 8 6 [(0, 10), (3, 0)] ?bc = Panic"
    by (subst Eval_optimizeMaths_loop.simps) (simp add: facts Let_def)
  have len: "length ?bc = 8" by simp
  show ?thesis
    unfolding Eval_optimizeMaths_def len 1 2 3 ..
qed

lemma Eval_maths_track:
  assumes T: "code_ok T" and i: "instr_ok T i" and lt: "length pre < ln"
    and nop: "hd i \<noteq> OpEqual T" "hd i \<noteq> OpNotEqual T" "hd i \<noteq> OpMul T"
      "hd i \<noteq> OpAdd T" "hd i \<noteq> OpSub T" "hd i \<noteq> OpDiv T"
  shows "Eval_optimizeMaths_loop T ln (length pre) args (pre @ i @ rest)
       = Eval_optimizeMaths_loop T ln (length pre + length i)
           (if hd i = OpPush T then args @ [(length pre, push_value i)]
            else if hd i = OpNop T then args else [])
           (pre @ i @ rest)"
  using i
proof (cases rule: instr_ok_cases)
  case (one op)
  with nop lt code_ok_has_arg [OF T] show ?thesis
    by (subst Eval_optimizeMaths_loop.simps) (auto simp: Length_def nth_append Let_def)
next
  case (three op b0 b1)
  with nop lt code_ok_has_arg [OF T] show ?thesis
    by (subst Eval_optimizeMaths_loop.simps)
       (auto simp: Length_def nth_append Let_def opArg_at_def push_value_def numeral_3_eq_3)
qed

lemma Eval_maths_arith:
  assumes T: "code_ok T"
    and op: "op = OpMul T \<or> op = OpAdd T \<or> op = OpSub T \<or> op = OpDiv T"
    and len: "2 \<le> length args" and lt: "length pre < ln"
  shows "Eval_optimizeMaths_loop T ln (length pre) args (pre @ [op] @ rest)
       = (let a = args ! (length args - 1); b = args ! (length args - 2)
          in if op = OpDiv T \<and> snd a = 0 then Panic
             else let result = fold_result T op (snd b) (snd a)
                  in if result \<ge> 0 \<and> result \<le> 65534 then
                       (case changeOperand (pre @ [op] @ rest) (fst a) result of
                          Panic \<Rightarrow> Panic
                        | Returns i1 \<Rightarrow>
                            (case stores i1
                                    [(int (fst b), OpNop T), (int (fst b) + 1, OpNop T),
                                     (int (fst b) + 2, OpNop T), (int (length pre), OpNop T)] of
                               Panic \<Rightarrow> Panic
                             | Returns i2 \<Rightarrow> Returns (i2, True)))
                     else Eval_optimizeMaths_loop T ln (length pre + 1) [] (pre @ [op] @ rest))"
proof -
  have nop: "op \<noteq> OpPush T" "op \<noteq> OpNop T" "op \<noteq> OpEqual T" "op \<noteq> OpNotEqual T"
    using op code_ok_neq [OF T] by auto
  have r: "(if op = OpDiv T then bv div av
            else if op = OpSub T then bv - av
            else if op = OpAdd T then av + bv
            else if op = OpMul T then av * bv else 0) = fold_result T op bv av" for bv av
    using op code_ok_neq [OF T] by (auto simp: fold_result_def)
  have l1: "Length T op = 1"
    using op code_ok_Length [OF T] by auto
  have at: "(pre @ [op] @ rest) ! length pre = op" "\<not> length (pre @ [op] @ rest) \<le> length pre"
    by (simp_all add: nth_append)
  have one: "\<not> (1 :: nat) > 1" by simp
  show ?thesis
    apply (subst Eval_optimizeMaths_loop.simps)
    unfolding Let_def at l1
    using nop op len lt
    by (simp only: if_False if_True simp_thms r mod_by_1 one outcome.case at)
qed


lemma Eval_maths_short:
  assumes T: "code_ok T"
    and op: "op = OpEqual T \<or> op = OpNotEqual T \<or> op = OpMul T \<or> op = OpAdd T
             \<or> op = OpSub T \<or> op = OpDiv T"
    and len: "length args < 2" and lt: "length pre < ln"
  shows "Eval_optimizeMaths_loop T ln (length pre) args (pre @ [op] @ rest)
       = Eval_optimizeMaths_loop T ln (length pre + 1) [] (pre @ [op] @ rest)"
proof -
  have n: "op \<noteq> OpPush T" "op \<noteq> OpNop T" "\<not> 2 \<le> length args"
    using op len code_ok_neq [OF T] by auto
  have l1: "Length T op = 1"
    using op code_ok_Length [OF T] by auto
  have at: "(pre @ [op] @ rest) ! length pre = op" "\<not> length (pre @ [op] @ rest) \<le> length pre"
    by (simp_all add: nth_append)
  have one: "\<not> (1 :: nat) > 1" by simp
  show ?thesis
  proof (cases "op = OpEqual T \<or> op = OpNotEqual T")
    case True
    show ?thesis
      apply (subst Eval_optimizeMaths_loop.simps)
      unfolding Let_def at l1
      using n True lt
      by (simp only: if_False if_True one outcome.case at)
  next
    case False
    with op have ar: "op = OpMul T \<or> op = OpAdd T \<or> op = OpSub T \<or> op = OpDiv T" by blast
    show ?thesis
      apply (subst Eval_optimizeMaths_loop.simps)
      unfolding Let_def at l1
      using n False ar lt
      by (simp only: if_False if_True one outcome.case at)
  qed
qed

lemma Eval_maths_quiet:
  assumes T: "code_ok T" and i: "instr_ok T i" and lt: "length pre < ln"
    and nf: "\<not> fires T (map snd args) (hd i)"
  shows "Eval_optimizeMaths_loop T ln (length pre) args (pre @ i @ rest)
       = Eval_optimizeMaths_loop T ln (length pre + length i)
           (if hd i = OpPush T then args @ [(length pre, push_value i)]
            else if hd i = OpNop T then args else [])
           (pre @ i @ rest)"
proof (cases "hd i = OpEqual T \<or> hd i = OpNotEqual T \<or> hd i = OpMul T \<or> hd i = OpAdd T
             \<or> hd i = OpSub T \<or> hd i = OpDiv T")
  case False
  then show ?thesis using Eval_maths_track [OF T i lt] by blast
next
  case True
  from operator_single [OF T i True]
  obtain k where k: "i = [k]" and n: "k \<noteq> OpPush T" "k \<noteq> OpNop T" by blast
  have hd: "hd [k] = k" by simp
  note op = True [unfolded k hd] and nf' = nf [unfolded k hd]
  have step: "Eval_optimizeMaths_loop T ln (length pre) args (pre @ [k] @ rest)
      = Eval_optimizeMaths_loop T ln (length pre + 1) [] (pre @ [k] @ rest)"
  proof (cases "2 \<le> length args")
    case False
    then have "length args < 2" by simp
    from Eval_maths_short [OF T op this lt] show ?thesis .
  next
    case len: True
    with nf' op have ar: "k = OpMul T \<or> k = OpAdd T \<or> k = OpSub T \<or> k = OpDiv T"
      by (auto simp: fires_def)
    from nf' len ar
    have nz: "\<not> (k = OpDiv T \<and> snd (args ! (length args - 1)) = 0)"
      and nr: "\<not> (0 \<le> fold_result T k (snd (args ! (length args - 2)))
                          (snd (args ! (length args - 1)))
               \<and> fold_result T k (snd (args ! (length args - 2)))
                          (snd (args ! (length args - 1))) \<le> 65534)"
      unfolding fires_def length_map window_last [OF len] by blast+
    show ?thesis
      using nz nr
      unfolding Eval_maths_arith [OF T ar len lt] Let_def
      by (simp only: if_False)
  qed
  have len1: "length [k] = 1" by simp
  from step n show ?thesis
    unfolding k hd len1 by (simp only: if_False)
qed

lemma Eval_maths_walk:
  assumes T: "code_ok T" and "\<forall>i\<in>set is. instr_ok T i" and "quiet T (map snd args) is"
    and "ln = length pre + length (concat is) + length rest"
  shows "Eval_optimizeMaths_loop T ln (length pre) args (pre @ concat is @ rest)
       = Eval_optimizeMaths_loop T ln (length pre + length (concat is))
           (track T (length pre) args is) (pre @ concat is @ rest)"
  using assms(2-)
proof (induction "is" arbitrary: pre args)
  case Nil
  then show ?case by simp
next
  case (Cons i "is")
  have i: "instr_ok T i" using Cons.prems(1) by simp
  then have "i \<noteq> []" by (simp add: instr_ok_def)
  then have lt: "length pre < ln" using Cons.prems(3) by simp
  let ?args = "if hd i = OpPush T then args @ [(length pre, push_value i)]
               else if hd i = OpNop T then args else []"
  have nf: "\<not> fires T (map snd args) (hd i)"
    using Cons.prems(2) by simp
  have okis: "\<forall>i\<in>set is. instr_ok T i" using Cons.prems(1) by simp
  have opf: "quiet T (map snd ?args) is"
    using Cons.prems(2) unfolding window_values by simp
  have "Eval_optimizeMaths_loop T ln (length pre) args (pre @ i @ (concat is @ rest))
      = Eval_optimizeMaths_loop T ln (length pre + length i) ?args (pre @ i @ (concat is @ rest))"
    by (rule Eval_maths_quiet [OF T i lt nf])
  also have "\<dots> = Eval_optimizeMaths_loop T ln (length (pre @ i)) ?args
          ((pre @ i) @ concat is @ rest)"
    by simp
  also have "\<dots> = Eval_optimizeMaths_loop T ln (length (pre @ i) + length (concat is))
          (track T (length (pre @ i)) ?args is) ((pre @ i) @ concat is @ rest)"
    by (rule Cons.IH [OF okis opf]) (use Cons.prems(3) in simp)
  finally show ?case by (simp add: add.assoc)
qed

lemma Eval_optimizeMaths_fold:
  assumes T: "code_ok T" and ok: "\<forall>i\<in>set is. instr_ok T i" and "of": "quiet T [] is"
    and tr: "track T 0 [] is = win @ [(boff, bv), (aoff, av)]"
    and op: "op = OpMul T \<or> op = OpAdd T \<or> op = OpSub T \<or> op = OpDiv T"
    and nz: "\<not> (op = OpDiv T \<and> av = 0)"
    and r: "0 \<le> fold_result T op bv av" "fold_result T op bv av \<le> 65534"
  shows "Eval_optimizeMaths T (concat is @ [op] @ rest)
       = Returns (folded T (concat is @ [op] @ rest) aoff boff (length (concat is))
                    (fold_result T op bv av), True)"
proof -
  let ?bc = "concat is @ [op] @ rest"
  let ?args = "win @ [(boff, bv), (aoff, av)]"
  let ?r = "fold_result T op bv av"
  have "(aoff, av) \<in> set (track T 0 [] is)" "(boff, bv) \<in> set (track T 0 [] is)"
    by (simp_all add: tr)
  from track_range [OF T ok this(1)] track_range [OF T ok this(2)]
  have rng: "aoff + 2 < length ?bc" "boff + 2 < length ?bc" "length (concat is) < length ?bc"
    by simp_all
  have a: "?args ! (length ?args - 1) = (aoff, av)" and b: "?args ! (length ?args - 2) = (boff, bv)"
    and len: "2 \<le> length ?args"
    by (simp_all add: nth_append)
  have u: "uint16 ?r = nat ?r" using r by (simp add: uint16_result)
  have rng2: "aoff + 2 < length (bc0 :: byte list) \<Longrightarrow> int aoff + 1 = int (aoff + 1) \<and> int aoff + 2 = int (aoff + 2)" for bc0
    by simp
  have c: "changeOperand ?bc aoff ?r
      = Returns (?bc[aoff + 1 := PutUint16 (nat ?r) ! 0, aoff + 2 := PutUint16 (nat ?r) ! 1])"
    using rng(1) unfolding changeOperand_def u stores.simps store_nat1 store_nat2 by simp
  have s: "stores (?bc[aoff + 1 := x, aoff + 2 := y])
             [(int boff, OpNop T), (int boff + 1, OpNop T), (int boff + 2, OpNop T),
              (int (length (concat is)), OpNop T)]
      = Returns (?bc[aoff + 1 := x, aoff + 2 := y, boff := OpNop T, boff + 1 := OpNop T,
                     boff + 2 := OpNop T, length (concat is) := OpNop T])" for x y
    using rng unfolding stores.simps store_nat store_nat1 store_nat2 by simp
  have p: "PutUint16 (nat ?r) ! 0 = of_nat (nat ?r div 256)" "PutUint16 (nat ?r) ! 1 = of_nat (nat ?r)"
    by (simp_all add: PutUint16_def)
  have e: "Eval_optimizeMaths_loop T (length ?bc) (length (concat is)) ?args (concat is @ [op] @ rest)
      = Returns (folded T ?bc aoff boff (length (concat is)) ?r, True)"
    using r nz
    unfolding Eval_maths_arith [OF T op len rng(3)] Let_def a b fst_conv snd_conv c s folded_def p
    by (simp only: if_True if_False outcome.case simp_thms s)
  have st: "Eval_optimizeMaths_loop T (length ?bc) (length ([] @ concat is)) ?args
              (([] @ concat is) @ [op] @ rest)
      = Returns (folded T ?bc aoff boff (length (concat is)) ?r, True)"
    using e by simp
  have "Eval_optimizeMaths_loop T (length ?bc) (length ([] :: byte list)) [] ([] @ concat is @ ([op] @ rest))
      = Eval_optimizeMaths_loop T (length ?bc) (length ([] :: byte list) + length (concat is))
          (track T (length ([] :: byte list)) [] is) ([] @ concat is @ ([op] @ rest))"
    by (rule Eval_maths_walk [OF T ok]) (use "of" in simp_all)
  with st tr show ?thesis
    by (simp add: Eval_optimizeMaths_def)
qed

lemma Eval_optimizeMaths_no_fold:
  assumes T: "code_ok T" and ok: "\<forall>i\<in>set is. instr_ok T i" and "of": "quiet T [] is"
    and tr: "track T 0 [] is = win @ [(boff, bv), (aoff, av)]"
    and op: "op = OpMul T \<or> op = OpAdd T \<or> op = OpSub T \<or> op = OpDiv T"
    and nz: "\<not> (op = OpDiv T \<and> av = 0)"
    and r: "\<not> (0 \<le> fold_result T op bv av \<and> fold_result T op bv av \<le> 65534)"
    and ok2: "\<forall>i\<in>set is2. instr_ok T i" and of2: "quiet T [] is2"
  shows "Eval_optimizeMaths T (concat is @ [op] @ concat is2)
       = Returns (concat is @ [op] @ concat is2, False)"
proof -
  let ?bc = "concat is @ [op] @ concat is2"
  let ?args = "win @ [(boff, bv), (aoff, av)]"
  have a: "?args ! (length ?args - 1) = (aoff, av)" and b: "?args ! (length ?args - 2) = (boff, bv)"
    and len: "2 \<le> length ?args"
    by (simp_all add: nth_append)
  have lt: "length (concat is) < length ?bc" by simp
  have 1: "Eval_optimizeMaths_loop T (length ?bc) (length ([] :: byte list)) []
             ([] @ concat is @ ([op] @ concat is2))
      = Eval_optimizeMaths_loop T (length ?bc) (length ([] :: byte list) + length (concat is))
          (track T (length ([] :: byte list)) [] is) ([] @ concat is @ ([op] @ concat is2))"
    by (rule Eval_maths_walk [OF T ok]) (use "of" in simp_all)
  have 2: "Eval_optimizeMaths_loop T (length ?bc) (length (concat is)) ?args
             (concat is @ [op] @ concat is2)
      = Eval_optimizeMaths_loop T (length ?bc) (length (concat is) + 1) []
             (concat is @ [op] @ concat is2)"
    using r nz
    unfolding Eval_maths_arith [OF T op len lt] Let_def a b fst_conv snd_conv
    by (simp only: if_False simp_thms)
  have 3: "Eval_optimizeMaths_loop T (length ?bc) (length (concat is @ [op])) []
             ((concat is @ [op]) @ concat is2 @ [])
      = Eval_optimizeMaths_loop T (length ?bc) (length (concat is @ [op]) + length (concat is2))
          (track T (length (concat is @ [op])) [] is2) ((concat is @ [op]) @ concat is2 @ [])"
    by (rule Eval_maths_walk [OF T ok2]) (use of2 in simp_all)
  have 4: "Eval_optimizeMaths_loop T (length ?bc) (length ?bc) w ?bc = Returns (?bc, False)" for w
    by (subst Eval_optimizeMaths_loop.simps) simp
  from 1 2 3 4 [of "track T (length (concat is @ [op])) [] is2"] tr show ?thesis
    by (simp add: Eval_optimizeMaths_def)
qed

lemma Eval_maths_fold_step:
  assumes T: "code_ok T"
    and op: "op = OpMul T \<or> op = OpAdd T \<or> op = OpSub T \<or> op = OpDiv T"
    and nz: "\<not> (op = OpDiv T \<and> av = 0)"
    and rng: "aoff + 2 < length (pre @ [op] @ rest)" "boff + 2 < length (pre @ [op] @ rest)"
    and lt: "length pre < ln"
  shows "Eval_optimizeMaths_loop T ln (length pre) (w @ [(boff, bv), (aoff, av)]) (pre @ [op] @ rest)
       = (if 0 \<le> fold_result T op bv av \<and> fold_result T op bv av \<le> 65534
          then Returns (folded T (pre @ [op] @ rest) aoff boff (length pre)
                          (fold_result T op bv av), True)
          else Eval_optimizeMaths_loop T ln (length pre + 1) [] (pre @ [op] @ rest))"
proof -
  let ?bc = "pre @ [op] @ rest"
  let ?args = "w @ [(boff, bv), (aoff, av)]"
  let ?r = "fold_result T op bv av"
  have a: "?args ! (length ?args - 1) = (aoff, av)" and b: "?args ! (length ?args - 2) = (boff, bv)"
    and len: "2 \<le> length ?args"
    by (simp_all add: nth_append)
  show ?thesis
  proof (cases "0 \<le> ?r \<and> ?r \<le> 65534")
    case False
    with nz show ?thesis
      unfolding Eval_maths_arith [OF T op len lt] Let_def a b fst_conv snd_conv
      by (simp only: if_False)
  next
    case True
    then have u: "uint16 ?r = nat ?r" by (simp add: uint16_result)
    have c: "changeOperand ?bc aoff ?r
        = Returns (?bc[aoff + 1 := PutUint16 (nat ?r) ! 0, aoff + 2 := PutUint16 (nat ?r) ! 1])"
      using rng(1) unfolding changeOperand_def u stores.simps store_nat1 store_nat2 by simp
    have s: "stores (?bc[aoff + 1 := x, aoff + 2 := y])
               [(int boff, OpNop T), (int boff + 1, OpNop T), (int boff + 2, OpNop T),
                (int (length pre), OpNop T)]
        = Returns (?bc[aoff + 1 := x, aoff + 2 := y, boff := OpNop T, boff + 1 := OpNop T,
                       boff + 2 := OpNop T, length pre := OpNop T])" for x y
      using rng unfolding stores.simps store_nat store_nat1 store_nat2 by simp
    have p: "PutUint16 (nat ?r) ! 0 = of_nat (nat ?r div 256)"
      "PutUint16 (nat ?r) ! 1 = of_nat (nat ?r)"
      by (simp_all add: PutUint16_def)
    from True nz show ?thesis
      unfolding Eval_maths_arith [OF T op len lt] Let_def a b fst_conv snd_conv c s folded_def p
      by (simp only: if_True if_False outcome.case simp_thms s)
  qed
qed

lemma quiet_first:
  assumes "\<not> quiet T (map snd args) js"
  shows "\<exists>is1 i is2. js = is1 @ i # is2 \<and> quiet T (map snd args) is1
           \<and> fires T (map snd (track T off args is1)) (hd i)"
  using assms
proof (induction js arbitrary: off args)
  case Nil
  then show ?case by simp
next
  case (Cons j js)
  let ?args = "if hd j = OpPush T then args @ [(off, push_value j)]
               else if hd j = OpNop T then args else []"
  show ?case
  proof (cases "fires T (map snd args) (hd j)")
    case True
    then have "j # js = [] @ j # js \<and> quiet T (map snd args) []
        \<and> fires T (map snd (track T off args [])) (hd j)"
      by simp
    then show ?thesis by blast
  next
    case False
    with Cons.prems have "\<not> quiet T (map snd ?args) js"
      unfolding window_values by simp
    from Cons.IH [OF this, of "off + length j"]
    obtain is1 i is2 where 1: "js = is1 @ i # is2" "quiet T (map snd ?args) is1"
      "fires T (map snd (track T (off + length j) ?args is1)) (hd i)"
      by blast
    have "quiet T (map snd args) (j # is1)"
      using False 1(2) unfolding window_values by simp
    with 1(1,3) have "j # js = (j # is1) @ i # is2 \<and> quiet T (map snd args) (j # is1)
        \<and> fires T (map snd (track T off args (j # is1))) (hd i)"
      by simp
    then show ?thesis by blast
  qed
qed

text \<open>
  C2. The claim: constant folding that meets a division whose divisor, the constant
  tracked last, is zero ends with a division-by-zero error, so that preparing
  \<open>return 10 / 0;\<close> fails with it and does not crash. The code, on the bytecode of that
  script (push 10, push 0, divide, return): the visitor of the machine's
  \<open>optimizeMaths\<close> does return the error and stops the walk, and nothing is folded;
  but \<open>optimizeMaths\<close> drops what the walker returns and itself returns no error. The
  engine's \<open>optimizeMaths\<close>, which \<open>Prepare\<close> runs, divides without a test and panics.
\<close>

theorem optimizeMaths_division_by_zero:
  assumes T: "code_ok T"
  shows "maths_visitor T 6 (OpDiv T) None
           ([OpPush T, 0, 10, OpPush T, 0, 0, OpDiv T, OpReturn T], [(0, 10), (3, 0)], False)
         = Returns (([OpPush T, 0, 10, OpPush T, 0, 0, OpDiv T, OpReturn T], [(0, 10), (3, 0)], False),
                    False, Some ''attempted division by zero'')
       \<and> VM_optimizeMaths T [OpPush T, 0, 10, OpPush T, 0, 0, OpDiv T, OpReturn T]
         = Returns ([OpPush T, 0, 10, OpPush T, 0, 0, OpDiv T, OpReturn T], False, None)
       \<and> Eval_optimizeMaths T [OpPush T, 0, 10, OpPush T, 0, 0, OpDiv T, OpReturn T] = Panic"
proof -
  let ?is = "[[OpPush T, 0, 10], [OpPush T, 0, 0]]"
  have ok: "\<forall>i\<in>set ?is. instr_ok T i"
    by (simp add: instr_ok_def code_ok_Length [OF T])
  have "of": "quiet T [] ?is"
    by (simp add: fires_def)
  have tr: "track T 0 [] ?is = [] @ [(0, 10), (3, 0)]"
    by (simp add: push_value_def Uint16_def)
  from optimizeMaths_div_zero [OF T ok "of" tr, of "[OpReturn T]"]
    maths_visitor_div_zero [where win = "[]" and boff = 0 and bv = 10 and aoff = 3, OF T refl]
    Eval_optimizeMaths_division_by_zero [OF T]
  show ?thesis by simp
qed

theorem optimizeMaths_division_by_zero_witness:
  "VM_optimizeMaths sample_code [1, 0, 10, 1, 0, 0, 8, 13] = Returns ([1, 0, 10, 1, 0, 0, 8, 13], False, None)
   \<and> Eval_optimizeMaths sample_code [1, 0, 10, 1, 0, 0, 8, 13] = Panic"
proof -
  have T: "code_ok sample_code"
    by (simp add: code_ok_def sample_code_def named_opcodes_def)
  from optimizeMaths_division_by_zero [OF T] show ?thesis
    by (simp add: sample_code_def)
qed

text \<open>
  C3, amended. Let the pass reach the operator \<open>op\<close>, one of \<open>OpMul\<close>, \<open>OpAdd\<close>,
  \<open>OpSub\<close>, \<open>OpDiv\<close>, wherever it stands in the program: the instructions \<open>is\<close> in front
  of it are any well-formed ones the pass leaves alone (other operators among them
  too, as long as they come with fewer than two constants or a result out of
  range). Let the window there end in the constants \<open>b\<close> (at \<open>boff\<close>) and \<open>a\<close> (at
  \<open>aoff\<close>), and let the divisor \<open>a\<close> of a division not be zero. Both are \<open>OpPush\<close>
  instructions with these values, and \<open>a\<close> is the later one. When the result (\<open>a * b\<close>, \<open>a + b\<close>, \<open>b - a\<close>,
  \<open>b / a\<close>) is in \<open>[0, 65534]\<close>, the pass writes it into the argument of the later push
  \<open>a\<close>, overwrites the three bytes of the earlier push \<open>b\<close> and the byte of the operator
  with \<open>OpNop\<close>, and reports a change; the machine's pass and the engine's agree on
  this. When it is not, the visitor leaves the bytecode, empties the window and walks
  on; when the pass leaves the instructions behind it alone as well, either pass
  reports no change. The step at the operator is the same in any state of the walk,
  for the machine's visitor and for the engine's loop. And
  these are all the places: in a program the pass does not leave alone there is a
  first instruction it acts on, behind instructions it leaves alone.
\<close>

theorem optimizeMaths_folds:
  assumes T: "code_ok T" and ok: "\<forall>i\<in>set is. instr_ok T i" and "of": "quiet T [] is"
    and tr: "track T 0 [] is = win @ [(boff, bv), (aoff, av)]"
    and op: "op = OpMul T \<or> op = OpAdd T \<or> op = OpSub T \<or> op = OpDiv T"
    and nz: "\<not> (op = OpDiv T \<and> av = 0)"
  shows "boff + 3 \<le> aoff \<and> aoff + 3 \<le> length (concat is)
       \<and> concat is ! boff = OpPush T
       \<and> bv = int (Uint16 (concat is ! (boff + 1)) (concat is ! (boff + 2)))
       \<and> concat is ! aoff = OpPush T
       \<and> av = int (Uint16 (concat is ! (aoff + 1)) (concat is ! (aoff + 2)))
       \<and> (0 \<le> fold_result T op bv av \<and> fold_result T op bv av \<le> 65534 \<longrightarrow>
            VM_optimizeMaths T (concat is @ [op] @ rest)
              = Returns (folded T (concat is @ [op] @ rest) aoff boff (length (concat is))
                           (fold_result T op bv av), True, None)
          \<and> Eval_optimizeMaths T (concat is @ [op] @ rest)
              = Returns (folded T (concat is @ [op] @ rest) aoff boff (length (concat is))
                           (fold_result T op bv av), True))
       \<and> (\<not> (0 \<le> fold_result T op bv av \<and> fold_result T op bv av \<le> 65534) \<longrightarrow>
            maths_visitor T (length (concat is)) op None
                (concat is @ [op] @ rest, win @ [(boff, bv), (aoff, av)], False)
              = Returns ((concat is @ [op] @ rest, [], False), True, None)
          \<and> (\<forall>is2. (\<forall>i\<in>set is2. instr_ok T i) \<and> quiet T [] is2 \<longrightarrow>
                 VM_optimizeMaths T (concat is @ [op] @ concat is2)
                   = Returns (concat is @ [op] @ concat is2, False, None)
               \<and> Eval_optimizeMaths T (concat is @ [op] @ concat is2)
                   = Returns (concat is @ [op] @ concat is2, False)))
       \<and> (\<forall>bc w offset arg ch.
              aoff + 2 < length bc \<and> boff + 2 < length bc \<and> offset < length bc \<longrightarrow>
              maths_visitor T offset op arg (bc, w @ [(boff, bv), (aoff, av)], ch)
                = (if 0 \<le> fold_result T op bv av \<and> fold_result T op bv av \<le> 65534
                   then Returns ((folded T bc aoff boff offset (fold_result T op bv av),
                                  w @ [(boff, bv), (aoff, av)], True), False, None)
                   else Returns ((bc, [], ch), True, None)))
       \<and> (\<forall>pre w rest' ln.
              aoff + 2 < length (pre @ [op] @ rest') \<and> boff + 2 < length (pre @ [op] @ rest')
              \<and> length pre < ln \<longrightarrow>
              Eval_optimizeMaths_loop T ln (length pre) (w @ [(boff, bv), (aoff, av)])
                  (pre @ [op] @ rest')
                = (if 0 \<le> fold_result T op bv av \<and> fold_result T op bv av \<le> 65534
                   then Returns (folded T (pre @ [op] @ rest') aoff boff (length pre)
                                   (fold_result T op bv av), True)
                   else Eval_optimizeMaths_loop T ln (length pre + 1) [] (pre @ [op] @ rest')))
       \<and> (\<forall>js. \<not> quiet T [] js \<longrightarrow>
              (\<exists>is1 i is2. js = is1 @ i # is2 \<and> quiet T [] is1
                 \<and> fires T (map snd (track T 0 [] is1)) (hd i)))"
proof -
  note w = track_window [OF T ok tr]
  have rng: "aoff + 2 < length (concat is @ [op] @ rest)"
    "boff + 2 < length (concat is @ [op] @ rest)"
    "length (concat is) < length (concat is @ [op] @ rest)"
    using w(1,2) by simp_all
  have 1: "0 \<le> fold_result T op bv av \<and> fold_result T op bv av \<le> 65534 \<longrightarrow>
            VM_optimizeMaths T (concat is @ [op] @ rest)
              = Returns (folded T (concat is @ [op] @ rest) aoff boff (length (concat is))
                           (fold_result T op bv av), True, None)
          \<and> Eval_optimizeMaths T (concat is @ [op] @ rest)
              = Returns (folded T (concat is @ [op] @ rest) aoff boff (length (concat is))
                           (fold_result T op bv av), True)"
    using optimizeMaths_fold [OF T ok "of" tr op nz] Eval_optimizeMaths_fold [OF T ok "of" tr op nz]
    by blast
  have 2: "\<not> (0 \<le> fold_result T op bv av \<and> fold_result T op bv av \<le> 65534) \<longrightarrow>
            maths_visitor T (length (concat is)) op None
                (concat is @ [op] @ rest, win @ [(boff, bv), (aoff, av)], False)
              = Returns ((concat is @ [op] @ rest, [], False), True, None)"
    using maths_visitor_fold [where win = win and arg = None and ch = False, OF T op refl nz rng] by simp
  have 3: "\<not> (0 \<le> fold_result T op bv av \<and> fold_result T op bv av \<le> 65534) \<longrightarrow>
           (\<forall>is2. (\<forall>i\<in>set is2. instr_ok T i) \<and> quiet T [] is2 \<longrightarrow>
                 VM_optimizeMaths T (concat is @ [op] @ concat is2)
                   = Returns (concat is @ [op] @ concat is2, False, None)
               \<and> Eval_optimizeMaths T (concat is @ [op] @ concat is2)
                   = Returns (concat is @ [op] @ concat is2, False))"
    using optimizeMaths_no_fold [OF T ok "of" tr op nz]
      Eval_optimizeMaths_no_fold [OF T ok "of" tr op nz]
    by blast
  have 4: "\<forall>bc w offset arg ch.
              aoff + 2 < length bc \<and> boff + 2 < length bc \<and> offset < length bc \<longrightarrow>
              maths_visitor T offset op arg (bc, w @ [(boff, bv), (aoff, av)], ch)
                = (if 0 \<le> fold_result T op bv av \<and> fold_result T op bv av \<le> 65534
                   then Returns ((folded T bc aoff boff offset (fold_result T op bv av),
                                  w @ [(boff, bv), (aoff, av)], True), False, None)
                   else Returns ((bc, [], ch), True, None))"
    using maths_visitor_fold [OF T op refl nz] by blast
  have 5: "\<forall>js. \<not> quiet T [] js \<longrightarrow>
              (\<exists>is1 i is2. js = is1 @ i # is2 \<and> quiet T [] is1
                 \<and> fires T (map snd (track T 0 [] is1)) (hd i))"
    using quiet_first [where args = "[]" and off = 0 and T = T] by simp
  have 6: "\<forall>pre w rest' ln.
              aoff + 2 < length (pre @ [op] @ rest') \<and> boff + 2 < length (pre @ [op] @ rest')
              \<and> length pre < ln \<longrightarrow>
              Eval_optimizeMaths_loop T ln (length pre) (w @ [(boff, bv), (aoff, av)])
                  (pre @ [op] @ rest')
                = (if 0 \<le> fold_result T op bv av \<and> fold_result T op bv av \<le> 65534
                   then Returns (folded T (pre @ [op] @ rest') aoff boff (length pre)
                                   (fold_result T op bv av), True)
                   else Eval_optimizeMaths_loop T ln (length pre + 1) [] (pre @ [op] @ rest'))"
    using Eval_maths_fold_step [OF T op nz] by blast
  from w 1 2 3 4 5 6 show ?thesis by blast
qed

theorem optimizeMaths_folds_witness:
  "VM_optimizeMaths sample_code (concat [[1, 0, 2], [1, 0, 3]] @ [OpMul sample_code] @ [13])
     = Returns ([2, 2, 2, 1, 0, 6, 2, 13], True, None)
   \<and> Eval_optimizeMaths sample_code (concat [[1, 0, 2], [1, 0, 3]] @ [OpMul sample_code] @ [13])
     = Returns ([2, 2, 2, 1, 0, 6, 2, 13], True)
   \<and> VM_optimizeMaths sample_code (concat [[1, 0, 2], [1, 0, 3]] @ [OpSub sample_code] @ concat [[13]])
     = Returns ([1, 0, 2, 1, 0, 3, 7, 13], False, None)
   \<and> VM_optimizeMaths sample_code
       (concat [[1, 0, 1], [6], [1, 0, 2], [1, 0, 3]] @ [OpMul sample_code] @ [13])
     = Returns ([1, 0, 1, 6, 2, 2, 2, 1, 0, 6, 2, 13], True, None)
   \<and> Eval_optimizeMaths sample_code
       (concat [[1, 0, 1], [6], [1, 0, 2], [1, 0, 3]] @ [OpMul sample_code] @ [13])
     = Returns ([1, 0, 1, 6, 2, 2, 2, 1, 0, 6, 2, 13], True)"
proof -
  have T: "code_ok sample_code"
    by (simp add: code_ok_def sample_code_def named_opcodes_def)
  have ok3: "\<forall>i\<in>set [[1, 0, 1], [6], [1, 0, 2], [1, 0, 3 :: byte]]. instr_ok sample_code i"
    by (simp add: instr_ok_def Length_def sample_code_def)
  have of3: "quiet sample_code [] [[1, 0, 1], [6], [1, 0, 2], [1, 0, 3]]"
    by (simp add: fires_def sample_code_def)
  have tr3: "track sample_code 0 [] [[1, 0, 1], [6], [1, 0, 2], [1, 0, 3]] = [] @ [(4, 2), (7, 3)]"
    by (simp add: push_value_def Uint16_def sample_code_def)
  have ok: "\<forall>i\<in>set [[1, 0, 2], [1, 0, 3 :: byte]]. instr_ok sample_code i"
    by (simp add: instr_ok_def Length_def sample_code_def)
  have "of": "quiet sample_code [] [[1, 0, 2], [1, 0, 3]]"
    by (simp add: fires_def sample_code_def)
  have tr: "track sample_code 0 [] [[1, 0, 2], [1, 0, 3]] = [] @ [(0, 2), (3, 3)]"
    by (simp add: push_value_def Uint16_def sample_code_def)
  have ok2: "\<forall>i\<in>set [[13 :: byte]]. instr_ok sample_code i"
    by (simp add: instr_ok_def Length_def sample_code_def)
  have of2: "quiet sample_code [] [[13]]"
    by (simp add: fires_def sample_code_def)
  have m: "fold_result sample_code (OpMul sample_code) 2 3 = 6"
    and s: "fold_result sample_code (OpSub sample_code) 2 3 = - 1"
    by (simp_all add: fold_result_def sample_code_def)
  have opM: "OpMul sample_code = OpMul sample_code \<or> OpMul sample_code = OpAdd sample_code
      \<or> OpMul sample_code = OpSub sample_code \<or> OpMul sample_code = OpDiv sample_code"
    and opS: "OpSub sample_code = OpMul sample_code \<or> OpSub sample_code = OpAdd sample_code
      \<or> OpSub sample_code = OpSub sample_code \<or> OpSub sample_code = OpDiv sample_code"
    by simp_all
  have nzM: "\<not> (OpMul sample_code = OpDiv sample_code \<and> (3 :: int) = 0)"
    and nzS: "\<not> (OpSub sample_code = OpDiv sample_code \<and> (3 :: int) = 0)"
    by simp_all
  from optimizeMaths_folds [OF T ok "of" tr opM nzM, of "[13]"]
  have "0 \<le> fold_result sample_code (OpMul sample_code) 2 3
          \<and> fold_result sample_code (OpMul sample_code) 2 3 \<le> 65534 \<longrightarrow>
        VM_optimizeMaths sample_code (concat [[1, 0, 2], [1, 0, 3]] @ [OpMul sample_code] @ [13])
          = Returns (folded sample_code (concat [[1, 0, 2], [1, 0, 3]] @ [OpMul sample_code] @ [13])
                       3 0 (length (concat [[1, 0, 2], [1, 0, 3 :: byte]]))
                       (fold_result sample_code (OpMul sample_code) 2 3), True, None)
        \<and> Eval_optimizeMaths sample_code (concat [[1, 0, 2], [1, 0, 3]] @ [OpMul sample_code] @ [13])
          = Returns (folded sample_code (concat [[1, 0, 2], [1, 0, 3]] @ [OpMul sample_code] @ [13])
                       3 0 (length (concat [[1, 0, 2], [1, 0, 3 :: byte]]))
                       (fold_result sample_code (OpMul sample_code) 2 3), True)"
    by blast
  then have 1: "VM_optimizeMaths sample_code (concat [[1, 0, 2], [1, 0, 3]] @ [OpMul sample_code] @ [13])
       = Returns ([2, 2, 2, 1, 0, 6, 2, 13], True, None)
     \<and> Eval_optimizeMaths sample_code (concat [[1, 0, 2], [1, 0, 3]] @ [OpMul sample_code] @ [13])
       = Returns ([2, 2, 2, 1, 0, 6, 2, 13], True)"
    unfolding m by (simp add: folded_def) (simp add: sample_code_def)
  from optimizeMaths_folds [OF T ok "of" tr opS nzS, of "[13]"]
  have "\<not> (0 \<le> fold_result sample_code (OpSub sample_code) 2 3
          \<and> fold_result sample_code (OpSub sample_code) 2 3 \<le> 65534) \<longrightarrow>
        (\<forall>is2. (\<forall>i\<in>set is2. instr_ok sample_code i) \<and> quiet sample_code [] is2 \<longrightarrow>
           VM_optimizeMaths sample_code
               (concat [[1, 0, 2], [1, 0, 3]] @ [OpSub sample_code] @ concat is2)
             = Returns (concat [[1, 0, 2], [1, 0, 3]] @ [OpSub sample_code] @ concat is2, False, None))"
    by blast
  then have "\<forall>is2. (\<forall>i\<in>set is2. instr_ok sample_code i) \<and> quiet sample_code [] is2 \<longrightarrow>
           VM_optimizeMaths sample_code
               (concat [[1, 0, 2], [1, 0, 3]] @ [OpSub sample_code] @ concat is2)
             = Returns (concat [[1, 0, 2], [1, 0, 3]] @ [OpSub sample_code] @ concat is2, False, None)"
    unfolding s by simp
  with ok2 of2
  have "VM_optimizeMaths sample_code
               (concat [[1, 0, 2], [1, 0, 3]] @ [OpSub sample_code] @ concat [[13]])
             = Returns (concat [[1, 0, 2], [1, 0, 3]] @ [OpSub sample_code] @ concat [[13]], False, None)"
    by blast
  then have 2: "VM_optimizeMaths sample_code (concat [[1, 0, 2], [1, 0, 3]] @ [OpSub sample_code] @ concat [[13]])
     = Returns ([1, 0, 2, 1, 0, 3, 7, 13], False, None)"
    by (simp add: sample_code_def)
  from optimizeMaths_folds [OF T ok3 of3 tr3 opM nzM, of "[13]"]
  have "0 \<le> fold_result sample_code (OpMul sample_code) 2 3
          \<and> fold_result sample_code (OpMul sample_code) 2 3 \<le> 65534 \<longrightarrow>
        VM_optimizeMaths sample_code
            (concat [[1, 0, 1], [6], [1, 0, 2], [1, 0, 3]] @ [OpMul sample_code] @ [13])
          = Returns (folded sample_code
                       (concat [[1, 0, 1], [6], [1, 0, 2], [1, 0, 3]] @ [OpMul sample_code] @ [13])
                       7 4 (length (concat [[1, 0, 1], [6], [1, 0, 2], [1, 0, 3 :: byte]]))
                       (fold_result sample_code (OpMul sample_code) 2 3), True, None)
        \<and> Eval_optimizeMaths sample_code
            (concat [[1, 0, 1], [6], [1, 0, 2], [1, 0, 3]] @ [OpMul sample_code] @ [13])
          = Returns (folded sample_code
                       (concat [[1, 0, 1], [6], [1, 0, 2], [1, 0, 3]] @ [OpMul sample_code] @ [13])
                       7 4 (length (concat [[1, 0, 1], [6], [1, 0, 2], [1, 0, 3 :: byte]]))
                       (fold_result sample_code (OpMul sample_code) 2 3), True)"
    by blast
  then have 3: "VM_optimizeMaths sample_code
         (concat [[1, 0, 1], [6], [1, 0, 2], [1, 0, 3]] @ [OpMul sample_code] @ [13])
       = Returns ([1, 0, 1, 6, 2, 2, 2, 1, 0, 6, 2, 13], True, None)
     \<and> Eval_optimizeMaths sample_code
         (concat [[1, 0, 1], [6], [1, 0, 2], [1, 0, 3]] @ [OpMul sample_code] @ [13])
       = Returns ([1, 0, 1, 6, 2, 2, 2, 1, 0, 6, 2, 13], True)"
    unfolding m by (simp add: folded_def) (simp add: sample_code_def)
  from 1 2 3 show ?thesis by simp
qed

text \<open>
  C3, as stated, fails: on push 2, push 3, multiply, return, the first push is
  overwritten with \<open>OpNop\<close> and the second push carries the result 6, in the machine's
  pass and in the engine's.
\<close>

theorem optimizeMaths_rewrites_later_push:
  "VM_optimizeMaths sample_code
       [OpPush sample_code, 0, 2, OpPush sample_code, 0, 3, OpMul sample_code, OpReturn sample_code]
     = Returns ([OpNop sample_code, OpNop sample_code, OpNop sample_code,
                 OpPush sample_code, 0, 6, OpNop sample_code, OpReturn sample_code], True, None)
   \<and> Eval_optimizeMaths sample_code
       [OpPush sample_code, 0, 2, OpPush sample_code, 0, 3, OpMul sample_code, OpReturn sample_code]
     = Returns ([OpNop sample_code, OpNop sample_code, OpNop sample_code,
                 OpPush sample_code, 0, 6, OpNop sample_code, OpReturn sample_code], True)
   \<and> OpNop sample_code \<noteq> OpPush sample_code"
  by (simp add: VM_optimizeMaths_def WalkBytecode.simps fetch_def Length_def opArg_at_def
        Uint16_def maths_visitor_def store_def uint16_def PutUint16_def sample_code_def
        Eval_optimizeMaths_def Eval_optimizeMaths_loop.simps changeOperand_def)

end
